theory Spec2Isabelle
  imports Complex_Main "HOL-Library.Log_Nat"
begin

section \<open>JavaScript values used by the action\<close>

text \<open>
  The action (\<^verbatim>\<open>src/index.ts\<close>) is glue code around three collaborators: the issue
  tracker that stores tickets, the body codec, and the lottery service.  Its own logic is
  the arithmetic on the purchase amount and the control flow (awaits, try/catch,
  \<^verbatim>\<open>Promise.all\<close>, \<^verbatim>\<open>Promise.allSettled\<close>).  Both are embedded here.
\<close>

subsection \<open>Numbers\<close>

text \<open>
  A JavaScript number is \<^verbatim>\<open>NaN\<close>, an infinity or a finite double.  A finite double
  is written as the rational it denotes.  The two zeros are identified: the code below
  only tests a zero for truthiness, and both zeros are falsy.
\<close>

datatype jsnum = NaN | PosInf | NegInf | Fin rat

fun js_neg :: "jsnum \<Rightarrow> jsnum" where
  "js_neg NaN = NaN"
| "js_neg PosInf = NegInf"
| "js_neg NegInf = PosInf"
| "js_neg (Fin q) = Fin (- q)"

text \<open>\<open>a \<le> b\<close> on numbers other than \<^verbatim>\<open>NaN\<close>.\<close>

fun js_le :: "jsnum \<Rightarrow> jsnum \<Rightarrow> bool" where
  "js_le NegInf b = True"
| "js_le a PosInf = True"
| "js_le (Fin p) (Fin q) = (p \<le> q)"
| "js_le a b = False"

text \<open>\<^verbatim>\<open>Math.min(a, b)\<close> and \<^verbatim>\<open>Math.max(a, b)\<close>: \<^verbatim>\<open>NaN\<close> if either argument is.\<close>

definition Math_min :: "jsnum \<Rightarrow> jsnum \<Rightarrow> jsnum" where
  "Math_min a b = (if a = NaN \<or> b = NaN then NaN else if js_le a b then a else b)"

definition Math_max :: "jsnum \<Rightarrow> jsnum \<Rightarrow> jsnum" where
  "Math_max a b = (if a = NaN \<or> b = NaN then NaN else if js_le a b then b else a)"

text \<open>\<^verbatim>\<open>a || b\<close> on numbers: the falsy numbers are \<^verbatim>\<open>NaN\<close> and zero.\<close>

definition truthy_num :: "jsnum \<Rightarrow> bool" where
  "truthy_num a = (a \<noteq> NaN \<and> a \<noteq> Fin 0)"

definition or_else :: "jsnum \<Rightarrow> jsnum \<Rightarrow> jsnum" where
  "or_else a b = (if truthy_num a then a else b)"

subsection \<open>\<^verbatim>\<open>Number(string)\<close>\<close>

text \<open>
  The double of a non-negative rational: the nearest one, ties to the even significand,
  with 53 bits of significand, the least exponent of the subnormal numbers (so that what
  is at most \<open>2 ^ - 1075\<close> becomes zero) and infinity from \<open>2 ^ 1024\<close> on.
\<close>

definition pow2 :: "int \<Rightarrow> rat" where
  "pow2 e = (if 0 \<le> e then 2 ^ nat e else 1 / 2 ^ nat (- e))"

text \<open>
  For \<open>q > 0\<close>, the \<open>e\<close> with \<open>2 ^ e \<le> q < 2 ^ (e + 1)\<close>, found from the
  numbers of binary digits of the numerator and the denominator (\<open>bitlen\<close>).
\<close>

definition binary_exponent :: "rat \<Rightarrow> int" where
  "binary_exponent q =
     (let k = bitlen (fst (quotient_of q)) - bitlen (snd (quotient_of q))
      in if pow2 k \<le> q then k else k - 1)"

definition round_half_even :: "rat \<Rightarrow> int" where
  "round_half_even m =
     (let f = \<lfloor>m\<rfloor>; r = m - of_int f
      in if r < 1 / 2 then f
         else if 1 / 2 < r then f + 1
         else if even f then f else f + 1)"

definition to_double :: "rat \<Rightarrow> jsnum" where
  "to_double q =
     (if q = 0 then Fin 0
      else
        (let e = binary_exponent q;
             ulp = pow2 (max e (- 1022) - 52);
             v = of_int (round_half_even (q / ulp)) * ulp
         in if pow2 1024 \<le> v then PosInf else Fin v))"

text \<open>
  The conversion follows the grammar of ECMA-262 (StringNumericLiteral): white space is
  trimmed, the empty string is zero, a decimal literal may carry a sign, a fraction and an
  exponent, \<^verbatim>\<open>Infinity\<close> is spelled exactly so, and a literal with the prefix
  \<^verbatim>\<open>0x\<close>, \<^verbatim>\<open>0o\<close> or \<^verbatim>\<open>0b\<close> takes no sign.  Everything else is \<^verbatim>\<open>NaN\<close>.
  The value of a literal is rounded to a double (correctly, as the engine of Node does for
  literals of any length).  Strings are byte strings, so of the white space characters
  only the ASCII ones appear.
\<close>

definition StrWhiteSpaceChar :: "char \<Rightarrow> bool" where
  "StrWhiteSpaceChar c = ((of_char c :: nat) \<in> {9, 10, 11, 12, 13, 32})"

definition trim :: "string \<Rightarrow> string" where
  "trim s = rev (dropWhile StrWhiteSpaceChar (rev (dropWhile StrWhiteSpaceChar s)))"

definition DecimalDigit :: "char \<Rightarrow> bool" where
  "DecimalDigit c = (48 \<le> (of_char c :: nat) \<and> (of_char c :: nat) \<le> 57)"

definition HexDigit :: "char \<Rightarrow> bool" where
  "HexDigit c = (DecimalDigit c
     \<or> (97 \<le> (of_char c :: nat) \<and> (of_char c :: nat) \<le> 102)
     \<or> (65 \<le> (of_char c :: nat) \<and> (of_char c :: nat) \<le> 70))"

definition OctalDigit :: "char \<Rightarrow> bool" where
  "OctalDigit c = (48 \<le> (of_char c :: nat) \<and> (of_char c :: nat) \<le> 55)"

definition BinaryDigit :: "char \<Rightarrow> bool" where
  "BinaryDigit c = (c = CHR ''0'' \<or> c = CHR ''1'')"

definition digit_value :: "char \<Rightarrow> nat" where
  "digit_value c =
     (if DecimalDigit c then of_char c - 48
      else if 97 \<le> (of_char c :: nat) then of_char c - 87
      else of_char c - 55)"

definition digits_value :: "int \<Rightarrow> string \<Rightarrow> int" where
  "digits_value base ds = foldl (\<lambda>a c. a * base + int (digit_value c)) 0 ds"

definition all_of :: "(char \<Rightarrow> bool) \<Rightarrow> string \<Rightarrow> bool" where
  "all_of P ds = (ds \<noteq> [] \<and> list_all P ds)"

definition pow10 :: "int \<Rightarrow> rat" where
  "pow10 e = (if 0 \<le> e then 10 ^ nat e else 1 / 10 ^ nat (- e))"

text \<open>The exponent part of a decimal literal; an absent one counts as exponent zero.\<close>

definition ExponentPart :: "string \<Rightarrow> int option" where
  "ExponentPart s =
     (if s = [] then Some 0
      else if hd s = CHR ''e'' \<or> hd s = CHR ''E'' then
        (let r = tl s;
             signed = (r \<noteq> [] \<and> (hd r = CHR ''+'' \<or> hd r = CHR ''-''));
             ds = (if signed then tl r else r)
         in if all_of DecimalDigit ds
            then Some (if signed \<and> hd r = CHR ''-'' then - digits_value 10 ds
                       else digits_value 10 ds)
            else None)
      else None)"

definition StrUnsignedDecimalLiteral :: "string \<Rightarrow> jsnum" where
  "StrUnsignedDecimalLiteral s =
     (if s = ''Infinity'' then PosInf
      else
        (let ip = takeWhile DecimalDigit s;
             r1 = dropWhile DecimalDigit s;
             dot = (r1 \<noteq> [] \<and> hd r1 = CHR ''.'');
             fp = (if dot then takeWhile DecimalDigit (tl r1) else []);
             r2 = (if dot then dropWhile DecimalDigit (tl r1) else r1)
         in if ip = [] \<and> fp = [] then NaN
            else (case ExponentPart r2 of
                    None \<Rightarrow> NaN
                  | Some e \<Rightarrow>
                      to_double ((of_int (digits_value 10 ip)
                                  + of_int (digits_value 10 fp) / 10 ^ length fp) * pow10 e))))"

definition StrDecimalLiteral :: "string \<Rightarrow> jsnum" where
  "StrDecimalLiteral s =
     (if s \<noteq> [] \<and> hd s = CHR ''+'' then StrUnsignedDecimalLiteral (tl s)
      else if s \<noteq> [] \<and> hd s = CHR ''-'' then js_neg (StrUnsignedDecimalLiteral (tl s))
      else StrUnsignedDecimalLiteral s)"

definition NonDecimalIntegerLiteral :: "string \<Rightarrow> jsnum option" where
  "NonDecimalIntegerLiteral s =
     (if length s < 2 \<or> hd s \<noteq> CHR ''0'' then None
      else
        (let p = hd (tl s); ds = tl (tl s)
         in if (p = CHR ''x'' \<or> p = CHR ''X'') \<and> all_of HexDigit ds
              then Some (to_double (of_int (digits_value 16 ds)))
            else if (p = CHR ''o'' \<or> p = CHR ''O'') \<and> all_of OctalDigit ds
              then Some (to_double (of_int (digits_value 8 ds)))
            else if (p = CHR ''b'' \<or> p = CHR ''B'') \<and> all_of BinaryDigit ds
              then Some (to_double (of_int (digits_value 2 ds)))
            else None))"

definition Number :: "string \<Rightarrow> jsnum" where
  "Number s =
     (let t = trim s
      in if t = [] then Fin 0
         else (case NonDecimalIntegerLiteral t of
                 Some v \<Rightarrow> v
               | None \<Rightarrow> StrDecimalLiteral t))"

subsection \<open>Thrown values\<close>

text \<open>
  Anything can be thrown.  The two catch blocks only ask \<^verbatim>\<open>e instanceof Error\<close> and, if
  so, read \<^verbatim>\<open>e.message\<close>: a thrown value is an \<open>Error\<close> with its message, or
  something else (\<open>NonError\<close>, with the value printed).
\<close>

datatype thrown = Error string | NonError string

section \<open>Collaborators and what a run leaves behind\<close>

subsection \<open>Tickets and calls\<close>

text \<open>
  A number-combination is a list of numbers; a ticket is an issue of the tracker with its
  number and a body, which the tracker's API may leave out (\<^verbatim>\<open>null\<close> or
  \<^verbatim>\<open>undefined\<close>): \<open>None\<close>.
\<close>

type_synonym combination = "int list"

record issue =
  number :: int
  body :: "string option"

text \<open>The three inputs of the action (\<^verbatim>\<open>inputKeys\<close>).\<close>

datatype inputKey = lottoId | lottoPassword | lottoPurchaseAmount

text \<open>The options \<^verbatim>\<open>runActionsEnvironments\<close> constructs the service with.\<close>

record serviceOptions =
  controller :: string
  headless :: bool
  logLevel :: string
  args :: "string list"

text \<open>
  The calls the action makes on its collaborators, with their arguments.  \<open>'l\<close> is the
  type of labels.
\<close>

datatype 'l call =
    InitLabels
  | InstallBrowser string
  | NewLottoService serviceOptions
  | SignIn string string
  | GetWaitingIssues
  | BodyParser string
  | Check combination int
  | MarkIssueAsChecked int "'l list"
  | Purchase jsnum
  | GetCurrentLottoRound
  | GetCheckWinningLink int "combination list"
  | BodyBuilder string int "combination list" string
  | CreateWaitingIssue string string
  | Destroy

text \<open>
  The lines the action logs with \<^verbatim>\<open>core.info\<close>, named after what they say (the
  source's texts are Korean), with the values they interpolate.
\<close>

datatype message =
    RunFailed thrown
  | SettingUp
  | CheckingResults
  | CheckingCount nat
  | CheckErrors nat
  | NothingToCheck
  | Purchasing
  | PurchaseDone
  | CreatingIssue
  | IssueCreated
  | PurchaseFailed thrown

text \<open>
  What can be observed of a run: a logged line, the signal \<^verbatim>\<open>core.setFailed\<close>, a call
  being made, and an asynchronous call settling (\<open>True\<close>: fulfilled).  Every event
  carries the logical time at which it happens; only the order of times matters.
\<close>

datatype 'l event =
    Info message
  | SetFailed string
  | Called "'l call"
  | Settled "'l call" bool

type_synonym 'l timed = "nat \<times> 'l event"

subsection \<open>The environment\<close>

text \<open>
  The collaborators are not part of \<^verbatim>\<open>src/index.ts\<close>; they are parameters.  A
  synchronous call returns a value or throws (\<open>Inl\<close>).  An asynchronous call
  (\<open>'a async\<close>) settles after some time, fulfilled with a value or rejected.  A call's
  outcome and duration depend on its arguments only.  Every call settles: a call that
  hangs forever is outside the model (the source has no time-outs, a hung call hangs the
  run).

  \<^verbatim>\<open>core.getInput\<close> gives the empty string for an input that is not set.
  \<open>today\<close> is the formatted date of line 97.  \<^verbatim>\<open>rankToLabel\<close> is a lookup that
  does not throw.
\<close>

type_synonym 'a async = "nat \<times> (thrown + 'a)"

record 'l env =
  getInput :: "inputKey \<Rightarrow> string"
  today :: string
  initLabels :: "unit async"
  installBrowser :: "string \<Rightarrow> unit async"
  newLottoService :: "serviceOptions \<Rightarrow> thrown + unit"
  signIn :: "string \<Rightarrow> string \<Rightarrow> unit async"
  getWaitingIssues :: "issue list async"
  bodyParser :: "string \<Rightarrow> thrown + (combination list \<times> int)"
  check :: "combination \<Rightarrow> int \<Rightarrow> int async"
  rankToLabel :: "int \<Rightarrow> 'l"
  markIssueAsChecked :: "int \<Rightarrow> 'l list \<Rightarrow> unit async"
  purchase :: "jsnum \<Rightarrow> combination list async"
  getCurrentLottoRound :: "thrown + int"
  getCheckWinningLink :: "int \<Rightarrow> combination list \<Rightarrow> thrown + string"
  bodyBuilder :: "string \<Rightarrow> int \<Rightarrow> combination list \<Rightarrow> string \<Rightarrow> thrown + string"
  createWaitingIssue :: "string \<Rightarrow> string \<Rightarrow> unit async"
  destroy :: "unit async"

subsection \<open>Control flow\<close>

text \<open>
  A piece of code started at some time leaves a trace, finishes at some time, and either
  returns a value (\<open>Inr\<close>) or throws (\<open>Inl\<close>); for an \<^verbatim>\<open>async\<close> function these are
  the fulfilment and the rejection of its promise.  Time passes only while a call is
  awaited.  The trace of a promise also holds what the calls it started do after the
  promise has settled.
\<close>

record ('l, 'a) outcome =
  trace :: "'l timed list"
  finished_at :: nat
  completion :: "thrown + 'a"

definition ret :: "'a \<Rightarrow> nat \<Rightarrow> ('l, 'a) outcome" where
  "ret v t = \<lparr>trace = [], finished_at = t, completion = Inr v\<rparr>"

definition info :: "message \<Rightarrow> nat \<Rightarrow> ('l, unit) outcome" where
  "info m t = \<lparr>trace = [(t, Info m)], finished_at = t, completion = Inr ()\<rparr>"

definition setFailed :: "string \<Rightarrow> nat \<Rightarrow> ('l, unit) outcome" where
  "setFailed m t = \<lparr>trace = [(t, SetFailed m)], finished_at = t, completion = Inr ()\<rparr>"

text \<open>A synchronous call: made and finished at the same time.\<close>

definition call :: "'l call \<Rightarrow> thrown + 'a \<Rightarrow> nat \<Rightarrow> ('l, 'a) outcome" where
  "call c r t = \<lparr>trace = [(t, Called c)], finished_at = t, completion = r\<rparr>"

text \<open>\<^verbatim>\<open>await f(...)\<close>: the call is made now and the code goes on when it settles.\<close>

definition await :: "'l call \<Rightarrow> 'a async \<Rightarrow> nat \<Rightarrow> ('l, 'a) outcome" where
  "await c a t =
     \<lparr>trace = [(t, Called c), (t + fst a, Settled c (\<not> isl (snd a)))],
      finished_at = t + fst a,
      completion = snd a\<rparr>"

text \<open>Sequencing: the rest runs from where the first part finished, unless it threw.\<close>

definition andThen ::
  "('l, 'a) outcome \<Rightarrow> (nat \<Rightarrow> 'a \<Rightarrow> ('l, 'b) outcome) \<Rightarrow> ('l, 'b) outcome" where
  "andThen m f =
     (case completion m of
        Inl e \<Rightarrow> \<lparr>trace = trace m, finished_at = finished_at m, completion = Inl e\<rparr>
      | Inr v \<Rightarrow>
          (let r = f (finished_at m) v
           in \<lparr>trace = trace m @ trace r, finished_at = finished_at r,
               completion = completion r\<rparr>))"

text \<open>\<^verbatim>\<open>try { m } catch (e) { h }\<close>.\<close>

definition tryCatch ::
  "('l, 'a) outcome \<Rightarrow> (nat \<Rightarrow> thrown \<Rightarrow> ('l, 'a) outcome) \<Rightarrow> ('l, 'a) outcome" where
  "tryCatch m h =
     (case completion m of
        Inr v \<Rightarrow> m
      | Inl e \<Rightarrow>
          (let r = h (finished_at m) e
           in \<lparr>trace = trace m @ trace r, finished_at = finished_at r,
               completion = completion r\<rparr>))"

text \<open>
  \<^verbatim>\<open>Promise.all\<close>, called at time \<open>t\<close> on promises that are already running: it
  rejects as soon as one of them rejects (with the reason of the earliest), without
  waiting for the others, and otherwise fulfils with all the values when the last one
  has.  The promises it did not wait for go on: their events stay in the trace.
\<close>

fun earliest :: "('l, 'a) outcome \<Rightarrow> ('l, 'a) outcome list \<Rightarrow> ('l, 'a) outcome" where
  "earliest p [] = p"
| "earliest p (q # qs) = earliest (if finished_at q < finished_at p then q else p) qs"

definition Promise_all :: "('l, 'a) outcome list \<Rightarrow> nat \<Rightarrow> ('l, 'a list) outcome" where
  "Promise_all ps t =
     (case filter (\<lambda>p. isl (completion p)) ps of
        [] \<Rightarrow>
          \<lparr>trace = concat (map trace ps),
           finished_at = fold max (map finished_at ps) t,
           completion = Inr (map (\<lambda>p. projr (completion p)) ps)\<rparr>
      | r # rs \<Rightarrow>
          \<lparr>trace = concat (map trace ps),
           finished_at = finished_at (earliest r rs),
           completion = Inl (projl (completion (earliest r rs)))\<rparr>)"

text \<open>
  \<^verbatim>\<open>Promise.allSettled\<close>: fulfils when every promise has settled, with their results in
  order (the source reads only the status of each: \<open>Inl\<close> is \<^verbatim>\<open>rejected\<close>).
\<close>

definition Promise_allSettled ::
  "('l, 'a) outcome list \<Rightarrow> nat \<Rightarrow> ('l, (thrown + 'a) list) outcome" where
  "Promise_allSettled ps t =
     \<lparr>trace = concat (map trace ps),
      finished_at = fold max (map finished_at ps) t,
      completion = Inr (map completion ps)\<rparr>"

text \<open>\<^verbatim>\<open>[...new Set(xs)]\<close>: the first occurrence of every element, in order.\<close>

fun spread_Set :: "'a list \<Rightarrow> 'a list" where
  "spread_Set [] = []"
| "spread_Set (x # xs) = x # filter (\<lambda>y. y \<noteq> x) (spread_Set xs)"

section \<open>The action\<close>

subsection \<open>\<^verbatim>\<open>runInitRepo\<close> and \<^verbatim>\<open>runActionsEnvironments\<close>\<close>

definition runInitRepo :: "'l env \<Rightarrow> nat \<Rightarrow> ('l, unit) outcome" where
  "runInitRepo env t = await InitLabels (initLabels env) t"

definition runActionsEnvironments :: "'l env \<Rightarrow> nat \<Rightarrow> ('l, unit) outcome" where
  "runActionsEnvironments env t =
     andThen (info SettingUp t) (\<lambda>t _.
     (let controller = ''playwright'' in
      andThen (await (InstallBrowser controller) (installBrowser env controller) t) (\<lambda>t _.
      (let id = getInput env lottoId;
           pwd = getInput env lottoPassword;
           options = \<lparr>controller = controller, headless = True, logLevel = ''DEBUG'',
                      args = [''--no-sandbox'']\<rparr>
       in andThen (call (NewLottoService options) (newLottoService env options) t) (\<lambda>t _.
          if id \<noteq> [] \<and> pwd \<noteq> [] then await (SignIn id pwd) (signIn env id pwd) t
          else ret () t)))))"

subsection \<open>\<^verbatim>\<open>runWinningCheck\<close>\<close>

text \<open>
  The function mapped over a ticket's combinations (lines 69 to 72): the check call is
  made at once, the rank is returned when it settles.
\<close>

definition checkPromise :: "'l env \<Rightarrow> int \<Rightarrow> nat \<Rightarrow> combination \<Rightarrow> ('l, int) outcome" where
  "checkPromise env round' t number' =
     andThen (await (Check number' round') (check env number' round') t) (\<lambda>t rank. ret rank t)"

text \<open>
  The function mapped over the waiting issues (lines 65 to 78), started at \<open>t\<close>.
  \<^verbatim>\<open>if (issue.body)\<close> is false for an absent body and for the empty string.
\<close>

definition issuePromise :: "'l env \<Rightarrow> nat \<Rightarrow> issue \<Rightarrow> ('l, unit) outcome" where
  "issuePromise env t issue =
     (case body issue of
        None \<Rightarrow> ret () t
      | Some b \<Rightarrow>
          if b = [] then ret () t
          else
            andThen (call (BodyParser b) (bodyParser env b) t) (\<lambda>t (numbers, round').
            (let checkPromises = map (checkPromise env round' t) numbers in
             andThen (Promise_all checkPromises t) (\<lambda>t ranks.
             (let rankLabels = spread_Set (map (rankToLabel env) ranks) in
              await (MarkIssueAsChecked (number issue) rankLabels)
                (markIssueAsChecked env (number issue) rankLabels) t)))))"

definition runWinningCheck :: "'l env \<Rightarrow> nat \<Rightarrow> ('l, unit) outcome" where
  "runWinningCheck env t =
     andThen (info CheckingResults t) (\<lambda>t _.
     andThen (await GetWaitingIssues (getWaitingIssues env) t) (\<lambda>t waitingIssues.
       if length waitingIssues > 0 then
         andThen (info (CheckingCount (length waitingIssues)) t) (\<lambda>t _.
         (let promises = map (issuePromise env t) waitingIssues in
          andThen (Promise_allSettled promises t) (\<lambda>t result.
          (let rejectedIssues = filter isl result in
           if length rejectedIssues > 0 then info (CheckErrors (length rejectedIssues)) t
           else ret () t))))
       else info NothingToCheck t))"

subsection \<open>\<^verbatim>\<open>runPurchase\<close>\<close>

text \<open>Lines 94 and 95: the amount read from the input.\<close>

definition purchaseAmount :: "string \<Rightarrow> jsnum" where
  "purchaseAmount input =
     (let amountInput = or_else (Number input) (Fin 5);
          amount = Math_max (Fin 1) (Math_min amountInput (Fin 5))
      in amount)"

text \<open>The body of the \<^verbatim>\<open>try\<close> block (lines 94 to 107).\<close>

definition purchaseAndRecord :: "'l env \<Rightarrow> nat \<Rightarrow> ('l, unit) outcome" where
  "purchaseAndRecord env t =
     (let amount = purchaseAmount (getInput env lottoPurchaseAmount);
          date = today env
      in andThen (await (Purchase amount) (purchase env amount) t) (\<lambda>t numbers.
         andThen (info PurchaseDone t) (\<lambda>t _.
         andThen (call GetCurrentLottoRound (getCurrentLottoRound env) t) (\<lambda>t current.
         (let round' = current + 1 in
          andThen (call (GetCheckWinningLink round' numbers)
                     (getCheckWinningLink env round' numbers) t) (\<lambda>t link.
          andThen (info CreatingIssue t) (\<lambda>t _.
          andThen (call (BodyBuilder date round' numbers link)
                     (bodyBuilder env date round' numbers link) t) (\<lambda>t issueBody.
          andThen (await (CreateWaitingIssue date issueBody)
                     (createWaitingIssue env date issueBody) t) (\<lambda>t _.
          info IssueCreated t)))))))))"

text \<open>The \<^verbatim>\<open>catch\<close> block (lines 108 to 115).\<close>

definition purchaseFailed :: "'l env \<Rightarrow> nat \<Rightarrow> thrown \<Rightarrow> ('l, unit) outcome" where
  "purchaseFailed env t e =
     andThen (await Destroy (destroy env) t) (\<lambda>t _.
       (case e of
          Error m \<Rightarrow> andThen (info (PurchaseFailed e) t) (\<lambda>t _. setFailed m t)
        | NonError v \<Rightarrow> ret () t))"

definition runPurchase :: "'l env \<Rightarrow> nat \<Rightarrow> ('l, unit) outcome" where
  "runPurchase env t =
     andThen (info Purchasing t) (\<lambda>t _.
       tryCatch (purchaseAndRecord env t) (purchaseFailed env))"

subsection \<open>\<^verbatim>\<open>run\<close>\<close>

text \<open>The body of the \<^verbatim>\<open>try\<close> block of \<^verbatim>\<open>run\<close> (lines 17 to 21).\<close>

definition runSteps :: "'l env \<Rightarrow> nat \<Rightarrow> ('l, unit) outcome" where
  "runSteps env t =
     andThen (runInitRepo env t) (\<lambda>t _.
     andThen (runActionsEnvironments env t) (\<lambda>t lottoService.
     andThen (runWinningCheck env t) (\<lambda>t _.
     runPurchase env t)))"

text \<open>The \<^verbatim>\<open>catch\<close> block of \<^verbatim>\<open>run\<close> (lines 22 to 26).\<close>

definition runFailed :: "nat \<Rightarrow> thrown \<Rightarrow> ('l, unit) outcome" where
  "runFailed t e =
     (case e of
        Error m \<Rightarrow> andThen (info (RunFailed e) t) (\<lambda>t _. setFailed m t)
      | NonError v \<Rightarrow> ret () t)"

text \<open>
  A finished process: what it did and the status it exited with.
  \<^verbatim>\<open>process.exit(code)\<close> ends the process with the status it is given, whatever came
  before; what pending calls would have done later does not happen.
\<close>

record 'l process =
  events :: "'l timed list"
  exited_at :: nat
  exit_status :: int

definition process_exit :: "int \<Rightarrow> ('l, 'a) outcome \<Rightarrow> 'l process" where
  "process_exit code m =
     \<lparr>events = filter (\<lambda>(t, e). t \<le> finished_at m) (trace m),
      exited_at = finished_at m,
      exit_status = code\<rparr>"

text \<open>\<^verbatim>\<open>run\<close>: the \<^verbatim>\<open>finally\<close> block exits however the rest ended.\<close>

definition run :: "'l env \<Rightarrow> 'l process" where
  "run env = process_exit 0 (tryCatch (runSteps env 0) runFailed)"

section \<open>Reading a trace\<close>

text \<open>The calls made, in the order of the trace.\<close>

fun called :: "'l timed \<Rightarrow> 'l call option" where
  "called (t, Called c) = Some c"
| "called (t, e) = None"

definition calls :: "'l timed list \<Rightarrow> 'l call list" where
  "calls tr = List.map_filter called tr"

text \<open>The asynchronous calls that were fulfilled.\<close>

fun fulfilled :: "'l timed \<Rightarrow> 'l call option" where
  "fulfilled (t, Settled c True) = Some c"
| "fulfilled (t, e) = None"

definition fulfilments :: "'l timed list \<Rightarrow> 'l call list" where
  "fulfilments tr = List.map_filter fulfilled tr"

fun is_Check :: "'l call \<Rightarrow> bool" where
  "is_Check (Check n r) = True"
| "is_Check c = False"

fun is_MarkIssueAsChecked :: "'l call \<Rightarrow> bool" where
  "is_MarkIssueAsChecked (MarkIssueAsChecked n ls) = True"
| "is_MarkIssueAsChecked c = False"

fun is_CreateWaitingIssue :: "'l call \<Rightarrow> bool" where
  "is_CreateWaitingIssue (CreateWaitingIssue d b) = True"
| "is_CreateWaitingIssue c = False"

fun is_Purchase :: "'l call \<Rightarrow> bool" where
  "is_Purchase (Purchase a) = True"
| "is_Purchase c = False"

text \<open>The calls that change the ticket store.\<close>

fun store_write :: "'l call \<Rightarrow> bool" where
  "store_write InitLabels = True"
| "store_write (MarkIssueAsChecked n ls) = True"
| "store_write (CreateWaitingIssue d b) = True"
| "store_write c = False"

text \<open>The messages given to \<^verbatim>\<open>core.setFailed\<close>.\<close>

fun signal :: "'l timed \<Rightarrow> string option" where
  "signal (t, SetFailed m) = Some m"
| "signal (t, e) = None"

definition signals :: "'l timed list \<Rightarrow> string list" where
  "signals tr = List.map_filter signal tr"

text \<open>The failure lines of the two catch blocks, with the value they report.\<close>

fun failure_line :: "'l timed \<Rightarrow> thrown option" where
  "failure_line (t, Info (RunFailed e)) = Some e"
| "failure_line (t, Info (PurchaseFailed e)) = Some e"
| "failure_line (t, e) = None"

definition failure_lines :: "'l timed list \<Rightarrow> thrown list" where
  "failure_lines tr = List.map_filter failure_line tr"

text \<open>The numbers of failed tickets the checker logged.\<close>

fun failure_count :: "'l timed \<Rightarrow> nat option" where
  "failure_count (t, Info (CheckErrors k)) = Some k"
| "failure_count (t, e) = None"

definition failure_counts :: "'l timed list \<Rightarrow> nat list" where
  "failure_counts tr = List.map_filter failure_count tr"

text \<open>The times at which the purchase is called on the session.\<close>

fun purchase_time :: "'l timed \<Rightarrow> nat option" where
  "purchase_time (t, Called (Purchase a)) = Some t"
| "purchase_time (t, e) = None"

definition purchase_times :: "'l timed list \<Rightarrow> nat list" where
  "purchase_times tr = List.map_filter purchase_time tr"

text \<open>
  The events of the checking phase: its log lines, and the calls it makes on the store,
  the codec and the session, made or settled.
\<close>

fun checking_call :: "'l call \<Rightarrow> bool" where
  "checking_call GetWaitingIssues = True"
| "checking_call (BodyParser b) = True"
| "checking_call (Check n r) = True"
| "checking_call (MarkIssueAsChecked n ls) = True"
| "checking_call c = False"

fun of_checking :: "'l event \<Rightarrow> bool" where
  "of_checking (Info CheckingResults) = True"
| "of_checking (Info (CheckingCount n)) = True"
| "of_checking (Info (CheckErrors k)) = True"
| "of_checking (Info NothingToCheck) = True"
| "of_checking (Info m) = False"
| "of_checking (SetFailed m) = False"
| "of_checking (Called c) = checking_call c"
| "of_checking (Settled c ok) = checking_call c"

text \<open>A check call settling.\<close>

fun check_settled :: "'l event \<Rightarrow> bool" where
  "check_settled (Settled (Check n r) ok) = True"
| "check_settled e = False"

text \<open>No event of the kind \<open>P\<close> happens after a purchase call.\<close>

definition before_purchase :: "('l event \<Rightarrow> bool) \<Rightarrow> 'l timed list \<Rightarrow> bool" where
  "before_purchase P tr =
     (\<forall>(t, e) \<in> set tr. P e \<longrightarrow> (\<forall>tp \<in> set (purchase_times tr). t \<le> tp))"

section \<open>The checker, seen from outside\<close>

text \<open>
  The time at which the checker, started at \<open>t\<close>, has the list of waiting issues and
  starts the per-ticket promises; the tickets whose promise is rejected; and the time at
  which the last promise has settled.
\<close>

definition checking_starts :: "'l env \<Rightarrow> nat \<Rightarrow> nat" where
  "checking_starts env t = t + fst (getWaitingIssues env)"

definition rejected_issues :: "'l env \<Rightarrow> nat \<Rightarrow> issue list \<Rightarrow> issue list" where
  "rejected_issues env t issues = filter (\<lambda>i. isl (completion (issuePromise env t i))) issues"

definition all_settled_at :: "'l env \<Rightarrow> nat \<Rightarrow> issue list \<Rightarrow> nat" where
  "all_settled_at env t issues =
     fold max (map (\<lambda>i. finished_at (issuePromise env t i)) issues) t"

section \<open>Scenarios\<close>

text \<open>
  Concrete environments, on which the theorems below are run.  In \<open>calm\<close> every call
  succeeds after one unit of time, no input is set and no ticket is waiting; the body
  codec of \<open>calm\<close> rejects every body.  Labels are strings.
\<close>

definition sample_label :: "int \<Rightarrow> string" where
  "sample_label rank =
     (if rank = 1 then ''1st'' else if rank = 2 then ''2nd'' else if rank = 3 then ''3rd''
      else if rank = 4 then ''4th'' else if rank = 5 then ''5th'' else ''lose'')"

definition calm :: "string env" where
  "calm =
     \<lparr>getInput = (\<lambda>k. []), today = ''2023-06-10'',
      initLabels = (1, Inr ()), installBrowser = (\<lambda>c. (1, Inr ())),
      newLottoService = (\<lambda>opts. Inr ()), signIn = (\<lambda>i p. (1, Inr ())),
      getWaitingIssues = (1, Inr []),
      bodyParser = (\<lambda>b. Inl (Error ''no numbers'')),
      check = (\<lambda>n r. (1, Inr 0)),
      rankToLabel = sample_label,
      markIssueAsChecked = (\<lambda>n ls. (1, Inr ())),
      purchase = (\<lambda>a. (1, Inr [[1, 2, 3, 4, 5, 6]])),
      getCurrentLottoRound = Inr 1084,
      getCheckWinningLink = (\<lambda>r ns. Inr ''link''),
      bodyBuilder = (\<lambda>d r ns l. Inr ''body''),
      createWaitingIssue = (\<lambda>d b. (1, Inr ())),
      destroy = (1, Inr ())\<rparr>"

text \<open>The purchase amount is set to \<open>s\<close>.\<close>

definition asking :: "string \<Rightarrow> string env" where
  "asking s = calm\<lparr>getInput := (\<lambda>k. if k = lottoPurchaseAmount then s else [])\<rparr>"

text \<open>The purchase call is rejected.\<close>

definition sold_out :: "string env" where
  "sold_out = calm\<lparr>purchase := (\<lambda>a. (1, Inl (Error ''sold out'')))\<rparr>"

text \<open>The purchase is rejected with a value that is no \<open>Error\<close>.\<close>

definition busy :: "string env" where
  "busy = calm\<lparr>purchase := (\<lambda>a. (1, Inl (NonError ''busy'')))\<rparr>"

text \<open>The purchase and \<^verbatim>\<open>destroy\<close> are rejected with values that are no \<open>Error\<close>s.\<close>

definition odd_throws :: "string env" where
  "odd_throws = calm\<lparr>
     purchase := (\<lambda>a. (1, Inl (NonError ''busy''))),
     destroy := (1, Inl (NonError ''gone''))\<rparr>"

text \<open>The first call of the run, \<^verbatim>\<open>initLabels\<close>, is rejected with an \<open>Error\<close>.\<close>

definition no_access :: "string env" where
  "no_access = calm\<lparr>initLabels := (1, Inl (Error ''no access''))\<rparr>"

text \<open>One ticket (number 7) is waiting; its body decodes to no combination.\<close>

definition no_numbers :: "string env" where
  "no_numbers = calm\<lparr>
     getWaitingIssues := (1, Inr [\<lparr>number = 7, body = Some ''t''\<rparr>]),
     bodyParser := (\<lambda>b. Inr ([], 1084))\<rparr>"

text \<open>Two tickets are waiting, one without a body and one with an empty body.\<close>

definition no_bodies :: "string env" where
  "no_bodies = calm\<lparr>
     getWaitingIssues := (1, Inr [\<lparr>number = 7, body = None\<rparr>, \<lparr>number = 8, body = Some []\<rparr>])\<rparr>"

text \<open>One ticket is waiting; its three combinations have the ranks 5, 5 and 3.\<close>

definition three_ranks :: "string env" where
  "three_ranks = calm\<lparr>
     getWaitingIssues := (1, Inr [\<lparr>number = 7, body = Some ''t''\<rparr>]),
     bodyParser := (\<lambda>b. Inr ([[1], [2], [3]], 1084)),
     check := (\<lambda>n r. (1, Inr (if n = [3] then 3 else 5)))\<rparr>"

text \<open>
  Two tickets are waiting: the body of ticket 7 decodes to two combinations, the body of
  ticket 8 does not decode.
\<close>

definition one_bad_body :: "string env" where
  "one_bad_body = calm\<lparr>
     getWaitingIssues :=
       (1, Inr [\<lparr>number = 7, body = Some ''good''\<rparr>, \<lparr>number = 8, body = Some ''bad''\<rparr>]),
     bodyParser := (\<lambda>b. if b = ''good'' then Inr ([[1], [2]], 1084)
                          else Inl (Error ''no numbers''))\<rparr>"

text \<open>
  One ticket with two combinations is waiting.  The check of the first is rejected after
  one unit of time, the check of the second takes two; the purchase takes three.
\<close>

definition racing :: "string env" where
  "racing = calm\<lparr>
     getWaitingIssues := (1, Inr [\<lparr>number = 7, body = Some ''t''\<rparr>]),
     bodyParser := (\<lambda>b. Inr ([[1], [2]], 1084)),
     check := (\<lambda>n r. if n = [1] then (1, Inl (Error ''down'')) else (2, Inr 0)),
     purchase := (\<lambda>a. (3, Inr [[1, 2, 3, 4, 5, 6]]))\<rparr>"

section \<open>Lemmas\<close>

subsection \<open>Numbers\<close>

lemma pow2_powi: "pow2 e = 2 powi e"
  by (simp add: pow2_def power_int_def inverse_eq_divide power_one_over)

lemma pow2_pos: "0 < pow2 e"
  by (simp add: pow2_powi)

lemma pow2_le_imp_le: "pow2 x \<le> pow2 y \<Longrightarrow> x \<le> y"
proof (rule ccontr)
  assume le: "pow2 x \<le> pow2 y" and "\<not> x \<le> y"
  then have "y < x" by simp
  then have "(2::rat) powi y < 2 powi x"
    by (rule power_int_strict_increasing) simp
  with le show False
    by (simp add: pow2_powi)
qed

lemma binary_exponent_above:
  assumes "0 < q"
  shows "pow2 (binary_exponent q) \<le> q"
proof -
  obtain n d where nd: "quotient_of q = (n, d)"
    by (cases "quotient_of q")
  then have d: "0 < d" and q: "q = of_int n / of_int d"
    by (simp_all add: quotient_of_denom_pos quotient_of_div)
  with assms have n: "0 < n"
    by (simp add: zero_less_divide_iff)
  have an: "0 \<le> bitlen n - 1" and ad: "0 \<le> bitlen d"
    using n by (simp_all add: bitlen_alt_def)
  have "pow2 (bitlen n - bitlen d - 1) \<le> q"
  proof -
    from bitlen_bounds[OF n] have "(of_int (2 ^ nat (bitlen n - 1)) :: rat) \<le> of_int n"
      unfolding of_int_le_iff by simp
    then have N: "2 powi (bitlen n - 1) \<le> (of_int n :: rat)"
      using an by (simp add: power_int_def)
    from bitlen_bounds[OF d] have "(of_int d :: rat) < of_int (2 ^ nat (bitlen d))"
      unfolding of_int_less_iff by simp
    then have D: "(of_int d :: rat) \<le> 2 powi (bitlen d)"
      using ad by (simp add: power_int_def)
    have "pow2 (bitlen n - bitlen d - 1) = 2 powi ((bitlen n - 1) - bitlen d)"
      by (simp add: pow2_powi algebra_simps)
    also have "\<dots> = 2 powi (bitlen n - 1) / 2 powi (bitlen d)"
      by (rule power_int_diff) simp
    also have "\<dots> \<le> of_int n / of_int d"
      using N D d n by (intro frac_le) simp_all
    finally show ?thesis
      by (simp add: q)
  qed
  then show ?thesis
    by (auto simp: binary_exponent_def nd Let_def)
qed

lemma round_half_even_small:
  assumes "0 \<le> m" "m \<le> 1 / 2"
  shows "round_half_even m = 0"
proof -
  from assms have "\<lfloor>m\<rfloor> = 0"
    by (simp add: floor_eq_iff)
  with assms show ?thesis
    by (simp add: round_half_even_def Let_def)
qed

lemma to_double_underflow:
  assumes "0 < q" "q \<le> pow2 (- 1075)"
  shows "to_double q = Fin 0"
proof -
  have "pow2 (binary_exponent q) \<le> pow2 (- 1075)"
    using binary_exponent_above[OF assms(1)] assms(2) by simp
  then have "binary_exponent q \<le> - 1075"
    by (rule pow2_le_imp_le)
  then have e: "max (binary_exponent q) (- 1022) - 52 = - 1074"
    by simp
  have "pow2 (- 1075) = pow2 (- 1074) / 2"
    by (simp add: pow2_def)
  with assms(2) pow2_pos[of "- 1074"] have "q / pow2 (- 1074) \<le> 1 / 2"
    by (simp add: field_simps)
  moreover have "0 \<le> q / pow2 (- 1074)"
    using assms(1) pow2_pos[of "- 1074"] by simp
  ultimately have "round_half_even (q / pow2 (- 1074)) = 0"
    by (rule round_half_even_small[rotated])
  then show ?thesis
    using assms(1) pow2_pos[of 1024] by (simp add: to_double_def Let_def e not_le)
qed

lemmas Number_defs = Number_def trim_def StrWhiteSpaceChar_def NonDecimalIntegerLiteral_def
  StrDecimalLiteral_def StrUnsignedDecimalLiteral_def DecimalDigit_def ExponentPart_def
  digits_value_def digit_value_def pow10_def all_of_def

lemma Number_samples:
  "Number ''0'' = Fin 0" "Number ''7'' = Fin 7" "Number ''abc'' = NaN" "Number ''3'' = Fin 3"
  "Number [] = Fin 0"
  by code_simp+

lemma Number_rounded:
  "Number ''1.1'' = Fin (2476979795053773 / 2251799813685248)"
  "Number ''9007199254740993'' = Fin 9007199254740992"
  by code_simp+

lemma Number_underflow: "Number ''1e-324'' = Fin 0"
proof -
  have "Number ''1e-324'' = to_double (1 / 10 ^ 324)"
    by (simp add: Number_defs)
  also have "\<dots> = Fin 0"
  proof (rule to_double_underflow)
    show "(0::rat) < 1 / 10 ^ 324"
      by simp
    have "(2::rat) ^ 1075 \<le> 10 ^ 324"
      by simp
    then show "(1::rat) / 10 ^ 324 \<le> pow2 (- 1075)"
      by (simp add: pow2_def field_simps)
  qed
  finally show ?thesis .
qed

lemma purchaseAmount_cases:
  "purchaseAmount s =
     (case Number s of
        NaN \<Rightarrow> Fin 5
      | PosInf \<Rightarrow> Fin 5
      | NegInf \<Rightarrow> Fin 1
      | Fin q \<Rightarrow> if q = 0 then Fin 5 else Fin (max 1 (min q 5)))"
  by (auto simp: purchaseAmount_def or_else_def truthy_num_def Math_max_def Math_min_def Let_def
      split: jsnum.splits)

lemma purchaseAmount_range: "\<exists>q. purchaseAmount s = Fin q \<and> 1 \<le> q \<and> q \<le> 5"
  by (auto simp: purchaseAmount_cases split: jsnum.splits)

lemma purchaseAmount_samples:
  "purchaseAmount [] = Fin 5" "purchaseAmount ''0'' = Fin 5" "purchaseAmount ''7'' = Fin 5"
  "purchaseAmount ''abc'' = Fin 5" "purchaseAmount ''3'' = Fin 3"
  "purchaseAmount ''1e-324'' = Fin 5"
  "purchaseAmount ''1.1'' = Fin (2476979795053773 / 2251799813685248)"
  by (simp_all add: purchaseAmount_cases Number_samples Number_underflow Number_rounded)

subsection \<open>Traces\<close>

lemma calls_simps [simp]:
  "calls [] = []"
  "calls (ev # tr) = (case called ev of None \<Rightarrow> calls tr | Some c \<Rightarrow> c # calls tr)"
  by (simp_all add: calls_def List.map_filter_def split: option.splits)

lemma fulfilments_simps [simp]:
  "fulfilments [] = []"
  "fulfilments (ev # tr) =
     (case fulfilled ev of None \<Rightarrow> fulfilments tr | Some c \<Rightarrow> c # fulfilments tr)"
  by (simp_all add: fulfilments_def List.map_filter_def split: option.splits)

lemma signals_simps [simp]:
  "signals [] = []"
  "signals (ev # tr) = (case signal ev of None \<Rightarrow> signals tr | Some m \<Rightarrow> m # signals tr)"
  by (simp_all add: signals_def List.map_filter_def split: option.splits)

lemma failure_lines_simps [simp]:
  "failure_lines [] = []"
  "failure_lines (ev # tr) =
     (case failure_line ev of None \<Rightarrow> failure_lines tr | Some e \<Rightarrow> e # failure_lines tr)"
  by (simp_all add: failure_lines_def List.map_filter_def split: option.splits)

lemma failure_counts_simps [simp]:
  "failure_counts [] = []"
  "failure_counts (ev # tr) =
     (case failure_count ev of None \<Rightarrow> failure_counts tr | Some k \<Rightarrow> k # failure_counts tr)"
  by (simp_all add: failure_counts_def List.map_filter_def split: option.splits)

lemma purchase_times_simps [simp]:
  "purchase_times [] = []"
  "purchase_times (ev # tr) =
     (case purchase_time ev of None \<Rightarrow> purchase_times tr | Some t \<Rightarrow> t # purchase_times tr)"
  by (simp_all add: purchase_times_def List.map_filter_def split: option.splits)

lemma calls_append: "calls (xs @ ys) = calls xs @ calls ys"
  by (simp add: calls_def List.map_filter_def)

lemma signals_append: "signals (xs @ ys) = signals xs @ signals ys"
  by (simp add: signals_def List.map_filter_def)

lemma failure_lines_append: "failure_lines (xs @ ys) = failure_lines xs @ failure_lines ys"
  by (simp add: failure_lines_def List.map_filter_def)

lemma fulfilments_append: "fulfilments (xs @ ys) = fulfilments xs @ fulfilments ys"
  by (simp add: fulfilments_def List.map_filter_def)

lemma failure_counts_append: "failure_counts (xs @ ys) = failure_counts xs @ failure_counts ys"
  by (simp add: failure_counts_def List.map_filter_def)

lemma signals_Nil_iff: "signals tr = [] \<longleftrightarrow> (\<forall>ev \<in> set tr. signal ev = None)"
  by (auto simp: signals_def List.map_filter_def filter_empty_conv)

lemma failure_lines_Nil_iff:
  "failure_lines tr = [] \<longleftrightarrow> (\<forall>ev \<in> set tr. failure_line ev = None)"
  by (auto simp: failure_lines_def List.map_filter_def filter_empty_conv)

lemma signals_filter_Nil: "signals tr = [] \<Longrightarrow> signals (filter P tr) = []"
  by (auto simp: signals_Nil_iff)

lemma failure_lines_filter_Nil: "failure_lines tr = [] \<Longrightarrow> failure_lines (filter P tr) = []"
  by (auto simp: failure_lines_Nil_iff)

lemma set_calls: "set (calls tr) = {c. \<exists>t. (t, Called c) \<in> set tr}"
proof (induction tr)
  case Nil
  then show ?case by simp
next
  case (Cons ev tr)
  obtain t e where ev: "ev = (t, e)"
    by (cases ev)
  show ?case
    by (cases e) (auto simp: ev Cons.IH)
qed

lemma set_fulfilments: "set (fulfilments tr) = {c. \<exists>t. (t, Settled c True) \<in> set tr}"
proof (induction tr)
  case Nil
  then show ?case by simp
next
  case (Cons ev tr)
  obtain t e where ev: "ev = (t, e)"
    by (cases ev)
  show ?case
  proof (cases e)
    case (Settled c ok)
    then show ?thesis
      by (cases ok) (auto simp: ev Cons.IH)
  qed (auto simp: ev Cons.IH)
qed

lemma set_purchase_times:
  "set (purchase_times tr) = {t. \<exists>a. (t, Called (Purchase a)) \<in> set tr}"
proof (induction tr)
  case Nil
  then show ?case by simp
next
  case (Cons ev tr)
  obtain t e where ev: "ev = (t, e)"
    by (cases ev)
  show ?case
  proof (cases e)
    case (Called c)
    then show ?thesis
      by (cases c) (auto simp: ev Cons.IH)
  qed (auto simp: ev Cons.IH)
qed

lemma calls_filter_none:
  "filter Q (calls tr) = [] \<Longrightarrow> filter Q (calls (filter P tr)) = []"
  by (auto simp: filter_empty_conv set_calls)

lemma fulfilments_filter_none:
  "filter Q (fulfilments tr) = [] \<Longrightarrow> filter Q (fulfilments (filter P tr)) = []"
  by (auto simp: filter_empty_conv set_fulfilments)

subsection \<open>Sequencing and promises\<close>

lemma trace_andThen:
  "trace (andThen m f) =
     (case completion m of Inl e \<Rightarrow> trace m | Inr v \<Rightarrow> trace m @ trace (f (finished_at m) v))"
  by (simp add: andThen_def Let_def split: sum.splits)

lemma completion_andThen:
  "completion (andThen m f) =
     (case completion m of Inl e \<Rightarrow> Inl e | Inr v \<Rightarrow> completion (f (finished_at m) v))"
  by (simp add: andThen_def Let_def split: sum.splits)

lemma finished_andThen:
  "finished_at (andThen m f) =
     (case completion m of
        Inl e \<Rightarrow> finished_at m
      | Inr v \<Rightarrow> finished_at (f (finished_at m) v))"
  by (simp add: andThen_def Let_def split: sum.splits)

lemma fold_max_ge: "(a::nat) \<le> fold max xs a"
proof (induction xs arbitrary: a)
  case Nil
  then show ?case by simp
next
  case (Cons x xs)
  have "a \<le> max x a" by simp
  also have "\<dots> \<le> fold max xs (max x a)" by (rule Cons.IH)
  finally show ?case by simp
qed

lemma fold_max_ge_member: "x \<in> set xs \<Longrightarrow> (x::nat) \<le> fold max xs a"
proof (induction xs arbitrary: a)
  case Nil
  then show ?case by simp
next
  case (Cons y xs)
  show ?case
  proof (cases "x = y")
    case True
    have "x \<le> max y a" using True by simp
    also have "\<dots> \<le> fold max xs (max y a)" by (rule fold_max_ge)
    finally show ?thesis by simp
  next
    case False
    with Cons.prems have "x \<in> set xs" by simp
    then show ?thesis by (simp add: Cons.IH)
  qed
qed

lemma earliest_member: "earliest p qs \<in> set (p # qs)"
  by (induction qs arbitrary: p) (auto split: if_splits)

lemma trace_Promise_all: "trace (Promise_all ps t) = concat (map trace ps)"
  by (simp add: Promise_all_def split: list.splits)

lemma Promise_all_Nil: "Promise_all [] t = \<lparr>trace = [], finished_at = t, completion = Inr []\<rparr>"
  by (simp add: Promise_all_def)

lemma Promise_all_fulfilled:
  assumes "\<forall>p \<in> set ps. \<not> isl (completion p)"
  shows "Promise_all ps t =
     \<lparr>trace = concat (map trace ps),
      finished_at = fold max (map finished_at ps) t,
      completion = Inr (map (\<lambda>p. projr (completion p)) ps)\<rparr>"
proof -
  have "filter (\<lambda>p. isl (completion p)) ps = []"
    using assms by (simp add: filter_empty_conv)
  then show ?thesis
    by (simp add: Promise_all_def)
qed

lemma Promise_all_finished_ge:
  assumes "\<forall>p \<in> set ps. t \<le> finished_at p"
  shows "t \<le> finished_at (Promise_all ps t)"
proof (cases "filter (\<lambda>p. isl (completion p)) ps")
  case Nil
  then show ?thesis
    by (simp add: Promise_all_def fold_max_ge)
next
  case (Cons r rs)
  have "earliest r rs \<in> set (filter (\<lambda>p. isl (completion p)) ps)"
    using earliest_member[of r rs] by (simp add: Cons)
  then have "earliest r rs \<in> set ps"
    by simp
  with assms show ?thesis
    by (simp add: Promise_all_def Cons)
qed

lemma set_spread_Set [simp]: "set (spread_Set xs) = set xs"
  by (induction xs) auto

lemma distinct_spread_Set [simp]: "distinct (spread_Set xs)"
  by (induction xs) auto

subsection \<open>One ticket\<close>

lemma trace_checkPromise:
  "trace (checkPromise env r t n) =
     [(t, Called (Check n r)),
      (t + fst (check env n r), Settled (Check n r) (\<not> isl (snd (check env n r))))]"
  by (simp add: checkPromise_def trace_andThen await_def ret_def split: sum.splits)

lemma completion_checkPromise: "completion (checkPromise env r t n) = snd (check env n r)"
  by (simp add: checkPromise_def completion_andThen await_def ret_def split: sum.splits)

lemma finished_checkPromise: "finished_at (checkPromise env r t n) = t + fst (check env n r)"
  by (simp add: checkPromise_def finished_andThen await_def ret_def split: sum.splits)

lemma checks_fulfilled:
  assumes "map (\<lambda>n. snd (check env n r)) numbers = map Inr ranks"
  shows "Promise_all (map (checkPromise env r t) numbers) t =
     \<lparr>trace = concat (map (\<lambda>n. trace (checkPromise env r t n)) numbers),
      finished_at = fold max (map (\<lambda>n. t + fst (check env n r)) numbers) t,
      completion = Inr ranks\<rparr>"
proof -
  have each: "snd (check env n r) \<in> Inr ` set ranks" if "n \<in> set numbers" for n
  proof -
    from that have "snd (check env n r) \<in> set (map (\<lambda>n. snd (check env n r)) numbers)"
      by simp
    then show ?thesis
      by (simp add: assms)
  qed
  then have ok: "\<forall>p \<in> set (map (checkPromise env r t) numbers). \<not> isl (completion p)"
    by (fastforce simp: completion_checkPromise)
  have "map (\<lambda>p. projr (completion p)) (map (checkPromise env r t) numbers)
          = map projr (map (\<lambda>n. snd (check env n r)) numbers)"
    by (simp add: completion_checkPromise comp_def)
  also have "\<dots> = ranks"
    by (simp add: assms comp_def)
  finally show ?thesis
    by (simp add: Promise_all_fulfilled[OF ok] comp_def finished_checkPromise)
qed

lemma checks_finished_ge: "t \<le> finished_at (Promise_all (map (checkPromise env r t) numbers) t)"
  by (rule Promise_all_finished_ge) (simp add: finished_checkPromise)

lemma checks_all_fulfilled:
  assumes "\<forall>n r. \<not> isl (snd (check env n r))"
  shows "\<not> isl (completion (Promise_all (map (checkPromise env r t) numbers) t))"
    and "n \<in> set numbers \<Longrightarrow>
      t + fst (check env n r) \<le> finished_at (Promise_all (map (checkPromise env r t) numbers) t)"
proof -
  have ok: "\<forall>p \<in> set (map (checkPromise env r t) numbers). \<not> isl (completion p)"
    using assms by (simp add: completion_checkPromise)
  show "\<not> isl (completion (Promise_all (map (checkPromise env r t) numbers) t))"
    by (simp add: Promise_all_fulfilled[OF ok])
  show "t + fst (check env n r) \<le> finished_at (Promise_all (map (checkPromise env r t) numbers) t)"
    if "n \<in> set numbers"
  proof -
    from that have "t + fst (check env n r) \<in> set (map (\<lambda>n. t + fst (check env n r)) numbers)"
      by (rule imageI[of n "set numbers" "\<lambda>n. t + fst (check env n r)", folded set_map])
    then show ?thesis
      by (simp add: Promise_all_fulfilled[OF ok] comp_def finished_checkPromise
          fold_max_ge_member del: set_map)
  qed
qed

lemma set_trace_checks:
  "set (trace (Promise_all (map (checkPromise env r t) numbers) t)) =
     (\<Union>n \<in> set numbers.
        {(t, Called (Check n r)),
         (t + fst (check env n r), Settled (Check n r) (\<not> isl (snd (check env n r))))})"
  by (auto simp: trace_Promise_all trace_checkPromise)

lemma issuePromise_no_body:
  assumes "body issue = None \<or> body issue = Some []"
  shows "issuePromise env t issue = ret () t"
  using assms by (auto simp: issuePromise_def)

lemma issuePromise_decoded:
  assumes "body issue = Some b" "b \<noteq> []" "bodyParser env b = Inr (numbers, r)"
  shows "issuePromise env t issue =
     andThen (call (BodyParser b) (Inr (numbers, r)) t) (\<lambda>t (numbers, r).
       andThen (Promise_all (map (checkPromise env r t) numbers) t) (\<lambda>t ranks.
         await (MarkIssueAsChecked (number issue) (spread_Set (map (rankToLabel env) ranks)))
           (markIssueAsChecked env (number issue) (spread_Set (map (rankToLabel env) ranks))) t))"
  using assms by (simp add: issuePromise_def Let_def)

lemma issuePromise_undecoded:
  assumes "body issue = Some b" "b \<noteq> []" "bodyParser env b = Inl e"
  shows "issuePromise env t issue =
     \<lparr>trace = [(t, Called (BodyParser b))], finished_at = t, completion = Inl e\<rparr>"
  using assms by (simp add: issuePromise_def andThen_def call_def)

lemma trace_issuePromise_events:
  assumes "ev \<in> set (trace (issuePromise env t issue))"
  shows "signal ev = None \<and> failure_line ev = None \<and> failure_count ev = None"
  using assms
  by (auto simp: issuePromise_def ret_def trace_andThen call_def await_def trace_Promise_all
      trace_checkPromise Let_def split: option.splits if_splits sum.splits prod.splits)

lemma issuePromise_event_cases:
  assumes "(t', e) \<in> set (trace (issuePromise env t issue))"
  shows "(\<exists>b. e = Called (BodyParser b)) \<or> (\<exists>n r. e = Called (Check n r))
       \<or> (\<exists>n r ok. e = Settled (Check n r) ok)
       \<or> (\<exists>ls. e = Called (MarkIssueAsChecked (number issue) ls))
       \<or> (\<exists>ls ok. e = Settled (MarkIssueAsChecked (number issue) ls) ok)"
  using assms
  by (auto simp: issuePromise_def ret_def trace_andThen call_def await_def trace_Promise_all
      trace_checkPromise Let_def split: option.splits if_splits sum.splits prod.splits)

lemma issuePromise_fulfilled_marks:
  assumes "body issue = Some b" "b \<noteq> []" "bodyParser env b = Inr (numbers, r)"
    and "completion (issuePromise env t issue) = Inr ()"
  shows "\<exists>t' ls. (t', Settled (MarkIssueAsChecked (number issue) ls) True)
            \<in> set (trace (issuePromise env t issue))"
  using assms(4)
  by (auto simp: issuePromise_decoded[OF assms(1-3)] trace_andThen completion_andThen
      call_def await_def split: sum.splits)

lemma issuePromise_event_times:
  assumes "(t', e) \<in> set (trace (issuePromise env t issue))"
    and "\<not> check_settled e \<or> (\<forall>n r. \<not> isl (snd (check env n r)))"
  shows "t' \<le> finished_at (issuePromise env t issue)"
proof (cases "body issue")
  case None
  with assms(1) show ?thesis
    by (simp add: issuePromise_no_body ret_def)
next
  case (Some b)
  show ?thesis
  proof (cases "b = []")
    case True
    with Some assms(1) show ?thesis
      by (simp add: issuePromise_no_body ret_def)
  next
    case False
    show ?thesis
    proof (cases "bodyParser env b")
      case (Inl e')
      with assms(1) show ?thesis
        by (simp add: issuePromise_undecoded[OF Some False Inl])
    next
      case (Inr decoded)
      obtain numbers r where "decoded = (numbers, r)"
        by (cases decoded)
      with Inr have d: "bodyParser env b = Inr (numbers, r)"
        by simp
      let ?all = "Promise_all (map (checkPromise env r t) numbers) t"
      have started: "t \<le> finished_at ?all"
        by (rule checks_finished_ge)
      have finished: "finished_at ?all \<le> finished_at (issuePromise env t issue)"
        by (simp add: issuePromise_decoded[OF Some False d] finished_andThen call_def
            await_def split: sum.splits)
      from assms(1) consider
          (parse) "t' = t"
        | (check) n where "n \<in> set numbers" "t' = t + fst (check env n r)"
            "e = Settled (Check n r) (\<not> isl (snd (check env n r)))"
        | (mark) "t' = finished_at ?all \<or> t' = finished_at (issuePromise env t issue)"
        by (auto simp: issuePromise_decoded[OF Some False d] trace_andThen finished_andThen
            call_def await_def set_trace_checks split: sum.splits)
      then show ?thesis
      proof cases
        case parse
        with started finished show ?thesis by simp
      next
        case check
        with assms(2) have "\<forall>n r. \<not> isl (snd (check env n r))"
          by auto
        from checks_all_fulfilled(2)[OF this check(1), where r = r and t = t] finished check(2)
        show ?thesis by simp
      next
        case mark
        with finished show ?thesis by auto
      qed
    qed
  qed
qed

subsection \<open>The checker\<close>

lemma all_settled_at_ge:
  "t \<le> all_settled_at env t issues"
  "issue \<in> set issues \<Longrightarrow> finished_at (issuePromise env t issue) \<le> all_settled_at env t issues"
  by (simp_all add: all_settled_at_def fold_max_ge fold_max_ge_member)

lemma runWinningCheck_listed:
  assumes "snd (getWaitingIssues env) = Inr issues"
  shows "runWinningCheck env t =
     \<lparr>trace =
        [(t, Info CheckingResults), (t, Called GetWaitingIssues),
         (checking_starts env t, Settled GetWaitingIssues True)] @
        (if issues = [] then [(checking_starts env t, Info NothingToCheck)]
         else (checking_starts env t, Info (CheckingCount (length issues))) #
              concat (map (\<lambda>i. trace (issuePromise env (checking_starts env t) i)) issues) @
              (if rejected_issues env (checking_starts env t) issues = [] then []
               else [(all_settled_at env (checking_starts env t) issues,
                      Info (CheckErrors
                        (length (rejected_issues env (checking_starts env t) issues))))])),
      finished_at =
        (if issues = [] then checking_starts env t
         else all_settled_at env (checking_starts env t) issues),
      completion = Inr ()\<rparr>"
  using assms
  by (simp add: runWinningCheck_def andThen_def info_def await_def ret_def Let_def
      Promise_allSettled_def checking_starts_def rejected_issues_def all_settled_at_def
      filter_map comp_def)

lemma runWinningCheck_not_listed:
  assumes "snd (getWaitingIssues env) = Inl e"
  shows "runWinningCheck env t =
     \<lparr>trace =
        [(t, Info CheckingResults), (t, Called GetWaitingIssues),
         (checking_starts env t, Settled GetWaitingIssues False)],
      finished_at = checking_starts env t,
      completion = Inl e\<rparr>"
  using assms
  by (simp add: runWinningCheck_def andThen_def info_def await_def checking_starts_def)

lemma issuePromise_in_runWinningCheck:
  assumes "snd (getWaitingIssues env) = Inr issues" "issue \<in> set issues"
  shows "set (trace (issuePromise env (checking_starts env t) issue))
           \<subseteq> set (trace (runWinningCheck env t))"
  using assms by (auto simp: runWinningCheck_listed[OF assms(1)])

lemma runWinningCheck_silent:
  "signals (trace (runWinningCheck env t)) = []"
  "failure_lines (trace (runWinningCheck env t)) = []"
proof -
  have "signals (trace (runWinningCheck env t)) = []
      \<and> failure_lines (trace (runWinningCheck env t)) = []"
  proof (cases "snd (getWaitingIssues env)")
    case (Inl e)
    then show ?thesis
      by (simp add: runWinningCheck_not_listed)
  next
    case (Inr issues)
    have "signals (concat (map (\<lambda>i. trace (issuePromise env t' i)) issues)) = []" for t'
      by (auto simp: signals_Nil_iff dest: trace_issuePromise_events)
    moreover
    have "failure_lines (concat (map (\<lambda>i. trace (issuePromise env t' i)) issues)) = []" for t'
      by (auto simp: failure_lines_Nil_iff dest: trace_issuePromise_events)
    ultimately show ?thesis
      by (simp add: runWinningCheck_listed[OF Inr] signals_append failure_lines_append)
  qed
  then show "signals (trace (runWinningCheck env t)) = []"
    and "failure_lines (trace (runWinningCheck env t)) = []"
    by simp_all
qed

lemma runWinningCheck_event_times:
  assumes "(t', e) \<in> set (trace (runWinningCheck env t))"
    and "\<not> check_settled e \<or> (\<forall>n r. \<not> isl (snd (check env n r)))"
  shows "t' \<le> finished_at (runWinningCheck env t)"
proof (cases "snd (getWaitingIssues env)")
  case (Inl e')
  with assms(1) show ?thesis
    by (auto simp: runWinningCheck_not_listed checking_starts_def)
next
  case (Inr issues)
  note listed = runWinningCheck_listed[OF Inr, of t]
  let ?t = "checking_starts env t"
  have started: "t \<le> ?t"
    by (simp add: checking_starts_def)
  show ?thesis
  proof (cases "issues = []")
    case True
    with assms(1) started show ?thesis
      by (auto simp: listed)
  next
    case False
    have joined: "?t \<le> all_settled_at env ?t issues"
      by (rule all_settled_at_ge)
    from assms(1) False consider
        (log) "t' = t \<or> t' = ?t \<or> t' = all_settled_at env ?t issues"
      | (ticket) issue where "issue \<in> set issues" "(t', e) \<in> set (trace (issuePromise env ?t issue))"
      by (auto simp: listed split: if_splits)
    then show ?thesis
    proof cases
      case log
      with started joined False show ?thesis
        by (auto simp: listed)
    next
      case ticket
      from issuePromise_event_times[OF ticket(2) assms(2)] all_settled_at_ge(2)[OF ticket(1)]
      have "t' \<le> all_settled_at env ?t issues"
        by (rule order_trans)
      with False show ?thesis
        by (simp add: listed)
    qed
  qed
qed

lemma runWinningCheck_no_purchase:
  assumes "ev \<in> set (trace (runWinningCheck env t))"
  shows "purchase_time ev = None"
proof (cases "snd (getWaitingIssues env)")
  case (Inl e')
  with assms show ?thesis
    by (auto simp: runWinningCheck_not_listed)
next
  case (Inr issues)
  obtain t' e where ev: "ev = (t', e)"
    by (cases ev)
  from assms show ?thesis
    by (auto simp: runWinningCheck_listed[OF Inr] ev split: if_splits
        dest!: issuePromise_event_cases)
qed

subsection \<open>The purchase\<close>

lemma purchase_calls_purchaseAndRecord:
  "filter is_Purchase (calls (trace (purchaseAndRecord env t)))
     = [Purchase (purchaseAmount (getInput env lottoPurchaseAmount))]"
  by (simp add: purchaseAndRecord_def Let_def trace_andThen calls_append await_def call_def
      info_def split: sum.splits)

lemma purchase_calls_runPurchase:
  "filter is_Purchase (calls (trace (runPurchase env t)))
     = [Purchase (purchaseAmount (getInput env lottoPurchaseAmount))]"
  using purchase_calls_purchaseAndRecord[of env t]
  by (simp add: runPurchase_def trace_andThen info_def tryCatch_def Let_def calls_append
      purchaseFailed_def await_def setFailed_def ret_def
      split: sum.splits thrown.splits)

lemma trace_purchaseFailed:
  "trace (purchaseFailed env t e) =
     [(t, Called Destroy), (t + fst (destroy env), Settled Destroy (\<not> isl (snd (destroy env))))] @
     (case snd (destroy env) of
        Inl e' \<Rightarrow> []
      | Inr u \<Rightarrow>
          (case e of
             Error m \<Rightarrow> [(t + fst (destroy env), Info (PurchaseFailed e)),
                          (t + fst (destroy env), SetFailed m)]
           | NonError v \<Rightarrow> []))"
  by (simp add: purchaseFailed_def trace_andThen await_def info_def setFailed_def ret_def
      split: sum.splits thrown.splits)

lemma completion_purchaseFailed:
  "completion (purchaseFailed env t e) = snd (destroy env)"
  by (simp add: purchaseFailed_def completion_andThen await_def info_def setFailed_def ret_def
      split: sum.splits thrown.splits)

lemma finished_purchaseFailed:
  "finished_at (purchaseFailed env t e) = t + fst (destroy env)"
  by (simp add: purchaseFailed_def finished_andThen await_def info_def setFailed_def ret_def
      split: sum.splits thrown.splits)

lemma trace_runPurchase:
  "trace (runPurchase env t) =
     (t, Info Purchasing) # trace (purchaseAndRecord env t) @
     (case completion (purchaseAndRecord env t) of
        Inl e \<Rightarrow> trace (purchaseFailed env (finished_at (purchaseAndRecord env t)) e)
      | Inr u \<Rightarrow> [])"
  by (simp add: runPurchase_def trace_andThen info_def tryCatch_def Let_def split: sum.splits)

lemma completion_runPurchase:
  "completion (runPurchase env t) =
     (case completion (purchaseAndRecord env t) of
        Inl e \<Rightarrow> snd (destroy env)
      | Inr u \<Rightarrow> Inr u)"
  by (simp add: runPurchase_def completion_andThen info_def tryCatch_def Let_def
      completion_purchaseFailed split: sum.splits)

lemma purchaseAndRecord_silent:
  "signals (trace (purchaseAndRecord env t)) = []"
  "failure_lines (trace (purchaseAndRecord env t)) = []"
  "filter (\<lambda>c. c = Destroy) (calls (trace (purchaseAndRecord env t))) = []"
  by (simp_all add: purchaseAndRecord_def Let_def trace_andThen signals_append
      failure_lines_append calls_append await_def call_def info_def split: sum.splits)

lemma purchaseAndRecord_failed:
  assumes "completion (purchaseAndRecord env t) = Inl e"
  shows "filter is_CreateWaitingIssue (fulfilments (trace (purchaseAndRecord env t))) = []"
    and "filter is_CreateWaitingIssue (calls (trace (purchaseAndRecord env t))) = []
         \<or> (\<exists>d b. snd (createWaitingIssue env d b) = Inl e)"
  using assms
  by (auto simp add: purchaseAndRecord_def Let_def trace_andThen completion_andThen
      fulfilments_append calls_append await_def call_def info_def split: sum.splits)

lemma completion_purchaseAndRecord_time:
  "completion (purchaseAndRecord env t) = completion (purchaseAndRecord env t')"
  by (simp add: purchaseAndRecord_def Let_def completion_andThen await_def call_def info_def
      split: sum.splits)

lemma runPurchase_reports:
  "signals (trace (runPurchase env t)) =
     (case completion (purchaseAndRecord env t) of
        Inl (Error m) \<Rightarrow> if isl (snd (destroy env)) then [] else [m]
      | Inl (NonError v) \<Rightarrow> []
      | Inr u \<Rightarrow> [])"
  "failure_lines (trace (runPurchase env t)) =
     (case completion (purchaseAndRecord env t) of
        Inl (Error m) \<Rightarrow> if isl (snd (destroy env)) then [] else [Error m]
      | Inl (NonError v) \<Rightarrow> []
      | Inr u \<Rightarrow> [])"
  by (auto simp: trace_runPurchase trace_purchaseFailed signals_append failure_lines_append
      purchaseAndRecord_silent split: sum.splits thrown.splits)

lemma runPurchase_throws_silent:
  assumes "completion (runPurchase env t) = Inl e"
  shows "signals (trace (runPurchase env t)) = []"
    and "failure_lines (trace (runPurchase env t)) = []"
  using assms
  by (auto simp: runPurchase_reports completion_runPurchase isl_def
      split: sum.splits thrown.splits)

lemma runPurchase_events:
  assumes "(t', e) \<in> set (trace (runPurchase env t))"
  shows "\<not> of_checking e" and "purchase_time (t', e) = Some tp \<Longrightarrow> tp = t"
  using assms
  by (auto simp: trace_runPurchase trace_purchaseFailed purchaseAndRecord_def Let_def
      trace_andThen info_def await_def call_def split: sum.splits thrown.splits)

subsection \<open>The run\<close>

lemma runInitRepo_silent:
  "signals (trace (runInitRepo env t)) = []" "failure_lines (trace (runInitRepo env t)) = []"
  by (simp_all add: runInitRepo_def await_def)

lemma runActionsEnvironments_silent:
  "signals (trace (runActionsEnvironments env t)) = []"
  "failure_lines (trace (runActionsEnvironments env t)) = []"
  by (simp_all add: runActionsEnvironments_def Let_def trace_andThen info_def await_def call_def
      ret_def signals_append failure_lines_append split: sum.splits)

lemma prelude_events:
  assumes "(t', e) \<in> set (trace (runInitRepo env t))
         \<or> (t', e) \<in> set (trace (runActionsEnvironments env t))"
  shows "\<not> of_checking e \<and> purchase_time (t', e) = None"
  using assms
  by (auto simp: runInitRepo_def runActionsEnvironments_def Let_def trace_andThen info_def
      await_def call_def ret_def split: sum.splits if_splits)

lemma before_purchase_quiet:
  assumes "(t', e) \<in> set (trace (runInitRepo env t))
         \<or> (t', e) \<in> set (trace (runActionsEnvironments env t))
         \<or> (t', e) \<in> set (trace (runWinningCheck env t))"
  shows "e \<noteq> Called Destroy \<and> (\<forall>d b ok. e \<noteq> Settled (CreateWaitingIssue d b) ok)"
proof -
  have "e \<noteq> Called Destroy \<and> (\<forall>d b ok. e \<noteq> Settled (CreateWaitingIssue d b) ok)"
    if "(t', e) \<in> set (trace (runWinningCheck env t))"
  proof (cases "snd (getWaitingIssues env)")
    case (Inl e')
    with that show ?thesis
      by (auto simp: runWinningCheck_not_listed)
  next
    case (Inr issues)
    from that show ?thesis
      by (auto simp: runWinningCheck_listed[OF Inr] split: if_splits
          dest!: issuePromise_event_cases)
  qed
  with assms show ?thesis
    by (auto simp: runInitRepo_def runActionsEnvironments_def Let_def trace_andThen info_def
        await_def call_def ret_def split: sum.splits if_splits)
qed

lemma before_purchase_no_release:
  "filter (\<lambda>c. c = Destroy) (calls (trace (runInitRepo env t))) = []"
  "filter (\<lambda>c. c = Destroy) (calls (trace (runActionsEnvironments env t))) = []"
  "filter (\<lambda>c. c = Destroy) (calls (trace (runWinningCheck env t))) = []"
  "filter is_CreateWaitingIssue (fulfilments (trace (runInitRepo env t))) = []"
  "filter is_CreateWaitingIssue (fulfilments (trace (runActionsEnvironments env t))) = []"
  "filter is_CreateWaitingIssue (fulfilments (trace (runWinningCheck env t))) = []"
proof -
  have 1: "e \<noteq> Called Destroy \<and> (\<forall>d b ok. e \<noteq> Settled (CreateWaitingIssue d b) ok)"
    if "(t', e) \<in> set (trace (runInitRepo env t))" for t' e
    using that before_purchase_quiet by blast
  have 2: "e \<noteq> Called Destroy \<and> (\<forall>d b ok. e \<noteq> Settled (CreateWaitingIssue d b) ok)"
    if "(t', e) \<in> set (trace (runActionsEnvironments env t))" for t' e
    using that before_purchase_quiet by blast
  have 3: "e \<noteq> Called Destroy \<and> (\<forall>d b ok. e \<noteq> Settled (CreateWaitingIssue d b) ok)"
    if "(t', e) \<in> set (trace (runWinningCheck env t))" for t' e
    using that before_purchase_quiet by blast
  show "filter (\<lambda>c. c = Destroy) (calls (trace (runInitRepo env t))) = []"
    "filter (\<lambda>c. c = Destroy) (calls (trace (runActionsEnvironments env t))) = []"
    "filter (\<lambda>c. c = Destroy) (calls (trace (runWinningCheck env t))) = []"
    by (auto simp: filter_empty_conv set_calls dest: 1 2 3)
  show "filter is_CreateWaitingIssue (fulfilments (trace (runInitRepo env t))) = []"
    "filter is_CreateWaitingIssue (fulfilments (trace (runActionsEnvironments env t))) = []"
    "filter is_CreateWaitingIssue (fulfilments (trace (runWinningCheck env t))) = []"
    by (auto simp: filter_empty_conv set_fulfilments elim!: is_CreateWaitingIssue.elims
        dest: 1 2 3)
qed

lemma trace_runSteps:
  "trace (runSteps env t) =
     trace (runInitRepo env t) @
     (case completion (runInitRepo env t) of
        Inl e \<Rightarrow> []
      | Inr u \<Rightarrow>
          trace (runActionsEnvironments env (finished_at (runInitRepo env t))) @
          (case completion (runActionsEnvironments env (finished_at (runInitRepo env t))) of
             Inl e \<Rightarrow> []
           | Inr u \<Rightarrow>
               trace (runWinningCheck env
                 (finished_at (runActionsEnvironments env (finished_at (runInitRepo env t))))) @
               (case completion (runWinningCheck env
                   (finished_at (runActionsEnvironments env (finished_at (runInitRepo env t))))) of
                  Inl e \<Rightarrow> []
                | Inr u \<Rightarrow>
                    trace (runPurchase env
                      (finished_at (runWinningCheck env
                        (finished_at (runActionsEnvironments env
                          (finished_at (runInitRepo env t)))))))))) "
  by (simp add: runSteps_def trace_andThen split: sum.splits)

lemma runSteps_returned:
  assumes "completion (runSteps env t) = Inr ()"
  shows "trace (runSteps env t) =
     trace (runInitRepo env t) @
     trace (runActionsEnvironments env (finished_at (runInitRepo env t))) @
     trace (runWinningCheck env
       (finished_at (runActionsEnvironments env (finished_at (runInitRepo env t))))) @
     trace (runPurchase env
       (finished_at (runWinningCheck env
         (finished_at (runActionsEnvironments env (finished_at (runInitRepo env t)))))))"
  using assms
  by (simp add: runSteps_def trace_andThen completion_andThen split: sum.splits)

lemma runSteps_events:
  assumes "ev \<in> set (trace (runSteps env t))"
  shows "ev \<in> set (trace (runInitRepo env t))
       \<or> ev \<in> set (trace (runActionsEnvironments env (finished_at (runInitRepo env t))))
       \<or> ev \<in> set (trace (runWinningCheck env
            (finished_at (runActionsEnvironments env (finished_at (runInitRepo env t))))))
       \<or> ev \<in> set (trace (runPurchase env
            (finished_at (runWinningCheck env
              (finished_at (runActionsEnvironments env (finished_at (runInitRepo env t))))))))"
  using assms
  by (auto simp: runSteps_def trace_andThen split: sum.splits)

lemma runSteps_throws_silent:
  assumes "completion (runSteps env t) = Inl e"
  shows "signals (trace (runSteps env t)) = []"
    and "failure_lines (trace (runSteps env t)) = []"
  using assms
  by (auto simp: runSteps_def trace_andThen completion_andThen signals_append
      failure_lines_append runInitRepo_silent runActionsEnvironments_silent
      runWinningCheck_silent runPurchase_throws_silent split: sum.splits)

lemma runSteps_returned_signals:
  assumes "completion (runSteps env 0) = Inr ()"
    and "completion (purchaseAndRecord env t) = Inl (NonError v)"
  shows "signals (trace (runSteps env 0)) = []"
    and "failure_lines (trace (runSteps env 0)) = []"
proof -
  have "completion (purchaseAndRecord env t') = Inl (NonError v)" for t'
    using assms(2) completion_purchaseAndRecord_time[of env t' t] by simp
  then show "signals (trace (runSteps env 0)) = []"
    and "failure_lines (trace (runSteps env 0)) = []"
    by (simp_all add: runSteps_returned[OF assms(1)] signals_append failure_lines_append
        runInitRepo_silent runActionsEnvironments_silent runWinningCheck_silent
        runPurchase_reports)
qed

lemma runSteps_purchase_reached:
  assumes "purchase_times (trace (runSteps env t)) \<noteq> []"
  obtains tp where "trace (runSteps env t) =
     trace (runInitRepo env t) @
     trace (runActionsEnvironments env (finished_at (runInitRepo env t))) @
     trace (runWinningCheck env
       (finished_at (runActionsEnvironments env (finished_at (runInitRepo env t))))) @
     trace (runPurchase env tp)"
    and "finished_at (runSteps env t) = finished_at (runPurchase env tp)"
    and "completion (runSteps env t) = completion (runPurchase env tp)"
proof -
  let ?t1 = "finished_at (runInitRepo env t)"
  let ?t2 = "finished_at (runActionsEnvironments env ?t1)"
  let ?t3 = "finished_at (runWinningCheck env ?t2)"
  from assms have "set (purchase_times (trace (runSteps env t))) \<noteq> {}"
    by simp
  then obtain tp a where "(tp, Called (Purchase a)) \<in> set (trace (runSteps env t))"
    unfolding set_purchase_times by blast
  then have reached: "completion (runInitRepo env t) = Inr ()
      \<and> completion (runActionsEnvironments env ?t1) = Inr ()
      \<and> completion (runWinningCheck env ?t2) = Inr ()"
    using prelude_events[of tp "Called (Purchase a)" env]
      runWinningCheck_no_purchase[of "(tp, Called (Purchase a))" env]
    by (auto simp: trace_runSteps split: sum.splits)
  then have "trace (runSteps env t) =
     trace (runInitRepo env t) @ trace (runActionsEnvironments env ?t1) @
     trace (runWinningCheck env ?t2) @ trace (runPurchase env ?t3)"
    and "finished_at (runSteps env t) = finished_at (runPurchase env ?t3)"
    and "completion (runSteps env t) = completion (runPurchase env ?t3)"
    by (simp_all add: runSteps_def trace_andThen finished_andThen completion_andThen)
  then show ?thesis
    by (rule that)
qed

lemma run_unfolded:
  "run env =
     \<lparr>events =
        filter (\<lambda>(t, e). t \<le> finished_at (runSteps env 0))
          (trace (runSteps env 0) @
           (case completion (runSteps env 0) of
              Inl (Error m) \<Rightarrow>
                [(finished_at (runSteps env 0), Info (RunFailed (Error m))),
                 (finished_at (runSteps env 0), SetFailed m)]
            | Inl (NonError v) \<Rightarrow> []
            | Inr u \<Rightarrow> [])),
      exited_at = finished_at (runSteps env 0),
      exit_status = 0\<rparr>"
  by (simp add: run_def process_exit_def tryCatch_def runFailed_def andThen_def info_def
      setFailed_def ret_def Let_def split: sum.splits thrown.splits)

lemma run_events:
  assumes "ev \<in> set (events (run env))"
  shows "ev \<in> set (trace (runSteps env 0))
       \<or> (\<exists>m. ev = (finished_at (runSteps env 0), Info (RunFailed (Error m)))
              \<or> ev = (finished_at (runSteps env 0), SetFailed m))"
  using assms
  by (auto simp: run_unfolded split: sum.splits thrown.splits)

subsection \<open>The order of the two phases\<close>

lemma Promise_all_rejected:
  assumes "completion (Promise_all ps t) = Inl x"
  shows "\<exists>p \<in> set ps. isl (completion p) \<and> finished_at (Promise_all ps t) = finished_at p"
proof (cases "filter (\<lambda>p. isl (completion p)) ps")
  case Nil
  with assms show ?thesis
    by (simp add: Promise_all_def)
next
  case (Cons r rs)
  have "earliest r rs \<in> set (filter (\<lambda>p. isl (completion p)) ps)"
    using earliest_member[of r rs] by (simp add: Cons)
  then have "earliest r rs \<in> set ps" "isl (completion (earliest r rs))"
    by simp_all
  moreover have "finished_at (Promise_all ps t) = finished_at (earliest r rs)"
    by (simp add: Promise_all_def Cons)
  ultimately show ?thesis
    by blast
qed

lemma Promise_all_waited:
  assumes "completion (Promise_all ps t) = Inr v" "p \<in> set ps"
  shows "finished_at p \<le> finished_at (Promise_all ps t)"
proof (cases "filter (\<lambda>p. isl (completion p)) ps")
  case Nil
  from assms(2) have "finished_at p \<in> set (map finished_at ps)"
    by simp
  then show ?thesis
    by (simp add: Promise_all_def Nil fold_max_ge_member del: set_map)
next
  case (Cons r rs)
  with assms(1) show ?thesis
    by (simp add: Promise_all_def)
qed

lemma issuePromise_check_times:
  assumes "(t', e) \<in> set (trace (issuePromise env t issue))"
  shows "t' \<le> finished_at (issuePromise env t issue)
       \<or> (\<exists>n r. (finished_at (issuePromise env t issue), Settled (Check n r) False)
                    \<in> set (trace (issuePromise env t issue)))"
proof (cases "check_settled e")
  case False
  with assms show ?thesis
    by (simp add: issuePromise_event_times)
next
  case True
  show ?thesis
  proof (cases "body issue")
    case None
    with assms show ?thesis
      by (simp add: issuePromise_no_body ret_def)
  next
    case (Some b)
    show ?thesis
    proof (cases "b = []")
      case True
      with Some assms show ?thesis
        by (simp add: issuePromise_no_body ret_def)
    next
      case False
      show ?thesis
      proof (cases "bodyParser env b")
        case (Inl e')
        with assms show ?thesis
          by (simp add: issuePromise_undecoded[OF Some False Inl])
      next
        case (Inr decoded)
        obtain numbers r where "decoded = (numbers, r)"
          by (cases decoded)
        with Inr have d: "bodyParser env b = Inr (numbers, r)"
          by simp
        let ?all = "Promise_all (map (checkPromise env r t) numbers) t"
        note unfolded = issuePromise_decoded[OF Some False d, of t]
        show ?thesis
        proof (cases "completion ?all")
          case (Inl x)
          then obtain p where "p \<in> set (map (checkPromise env r t) numbers)"
            "isl (completion p)" "finished_at ?all = finished_at p"
            using Promise_all_rejected by blast
          then obtain n where n: "n \<in> set numbers" "isl (snd (check env n r))"
            "finished_at ?all = t + fst (check env n r)"
            by (auto simp: completion_checkPromise finished_checkPromise)
          have fin: "finished_at (issuePromise env t issue) = finished_at ?all"
            by (simp add: unfolded finished_andThen call_def Inl)
          have "(t + fst (check env n r), Settled (Check n r) False)
              \<in> set (trace (issuePromise env t issue))"
            using n(1,2)
            by (auto simp: unfolded trace_andThen call_def Inl set_trace_checks)
          with fin n(3) show ?thesis
            by auto
        next
          case (Inr ranks)
          have fin: "finished_at ?all \<le> finished_at (issuePromise env t issue)"
            by (simp add: unfolded finished_andThen call_def await_def Inr)
          from True assms obtain n where "n \<in> set numbers" "t' = t + fst (check env n r)"
            by (auto simp: unfolded trace_andThen call_def await_def Inr set_trace_checks)
          then have "t' \<le> finished_at ?all"
            using Promise_all_waited[OF Inr, of "checkPromise env r t n"]
            by (simp add: finished_checkPromise)
          with fin show ?thesis
            by simp
        qed
      qed
    qed
  qed
qed

lemma runWinningCheck_check_times:
  assumes "(t', e) \<in> set (trace (runWinningCheck env t))"
  shows "t' \<le> finished_at (runWinningCheck env t)
       \<or> (\<exists>t'' n r. t'' \<le> finished_at (runWinningCheck env t)
             \<and> (t'', Settled (Check n r) False) \<in> set (trace (runWinningCheck env t)))"
proof (cases "check_settled e")
  case False
  with assms show ?thesis
    by (simp add: runWinningCheck_event_times)
next
  case True
  show ?thesis
  proof (cases "snd (getWaitingIssues env)")
    case (Inl e')
    with assms True show ?thesis
      by (auto simp: runWinningCheck_not_listed)
  next
    case (Inr issues)
    note listed = runWinningCheck_listed[OF Inr, of t]
    let ?t = "checking_starts env t"
    from assms True obtain issue where issue: "issue \<in> set issues"
      "(t', e) \<in> set (trace (issuePromise env ?t issue))"
      by (auto simp: listed split: if_splits)
    then have nonempty: "issues \<noteq> []"
      by auto
    have joined: "finished_at (issuePromise env ?t issue) \<le> finished_at (runWinningCheck env t)"
      using all_settled_at_ge(2)[OF issue(1)] nonempty by (simp add: listed)
    have inside: "set (trace (issuePromise env ?t issue)) \<subseteq> set (trace (runWinningCheck env t))"
      by (rule issuePromise_in_runWinningCheck[OF Inr issue(1)])
    from issuePromise_check_times[OF issue(2)] joined inside show ?thesis
      by (meson order_trans subsetD)
  qed
qed

lemma finished_purchaseAndRecord_ge: "t \<le> finished_at (purchaseAndRecord env t)"
  by (simp add: purchaseAndRecord_def Let_def finished_andThen await_def call_def info_def
      split: sum.splits)

lemma finished_runPurchase_ge: "t \<le> finished_at (runPurchase env t)"
  using finished_purchaseAndRecord_ge[of t env]
  by (simp add: runPurchase_def finished_andThen info_def tryCatch_def Let_def
      finished_purchaseFailed split: sum.splits)

lemma runSteps_purchase_reached_at:
  assumes "(tp, Called (Purchase a)) \<in> set (trace (runSteps env t))"
  shows "tp = finished_at (runWinningCheck env
           (finished_at (runActionsEnvironments env (finished_at (runInitRepo env t)))))"
    and "set (trace (runWinningCheck env
           (finished_at (runActionsEnvironments env (finished_at (runInitRepo env t))))))
         \<subseteq> set (trace (runSteps env t))"
    and "tp \<le> finished_at (runSteps env t)"
proof -
  let ?t1 = "finished_at (runInitRepo env t)"
  let ?t2 = "finished_at (runActionsEnvironments env ?t1)"
  let ?t3 = "finished_at (runWinningCheck env ?t2)"
  from assms have reached: "completion (runInitRepo env t) = Inr ()
      \<and> completion (runActionsEnvironments env ?t1) = Inr ()
      \<and> completion (runWinningCheck env ?t2) = Inr ()
      \<and> (tp, Called (Purchase a)) \<in> set (trace (runPurchase env ?t3))"
    using prelude_events[of tp "Called (Purchase a)" env]
      runWinningCheck_no_purchase[of "(tp, Called (Purchase a))" env]
    by (auto simp: trace_runSteps split: sum.splits)
  then show "tp = ?t3"
    using runPurchase_events(2)[of tp "Called (Purchase a)" env ?t3 tp] by simp
  from reached show "set (trace (runWinningCheck env ?t2)) \<subseteq> set (trace (runSteps env t))"
    by (auto simp: trace_runSteps)
  from reached have "finished_at (runSteps env t) = finished_at (runPurchase env ?t3)"
    by (simp add: runSteps_def finished_andThen)
  with \<open>tp = ?t3\<close> finished_runPurchase_ge[of ?t3 env] show "tp \<le> finished_at (runSteps env t)"
    by simp
qed

lemma run_events_kept:
  assumes "(t', e) \<in> set (trace (runSteps env 0))" "t' \<le> finished_at (runSteps env 0)"
  shows "(t', e) \<in> set (events (run env))"
  using assms by (auto simp: run_unfolded)

text \<open>
  What the two joins do ensure.  Whatever the checking phase logs or starts, and every
  call of it on the store or the codec settling, happens no later than the purchase call:
  \<^verbatim>\<open>Promise.allSettled\<close> has joined all the tickets' promises by then.  If moreover
  no check call is seen to be rejected in the run, every check call has settled by then
  as well.
\<close>

lemma checking_before_purchase:
  "before_purchase (\<lambda>e. of_checking e \<and> \<not> check_settled e) (events (run env))"
  "\<forall>t n r. (t, Settled (Check n r) False) \<notin> set (events (run env)) \<Longrightarrow>
     before_purchase of_checking (events (run env))"
proof -
  let ?t1 = "finished_at (runInitRepo env 0)"
  let ?t2 = "finished_at (runActionsEnvironments env ?t1)"
  let ?t3 = "finished_at (runWinningCheck env ?t2)"
  have purchased: "tp = ?t3 \<and> tp \<le> finished_at (runSteps env 0)
      \<and> set (trace (runWinningCheck env ?t2)) \<subseteq> set (trace (runSteps env 0))"
    if "tp \<in> set (purchase_times (events (run env)))" for tp
  proof -
    from that obtain a where "(tp, Called (Purchase a)) \<in> set (events (run env))"
      by (auto simp: set_purchase_times)
    then have "(tp, Called (Purchase a)) \<in> set (trace (runSteps env 0))"
      by (auto dest: run_events)
    from runSteps_purchase_reached_at[OF this] show ?thesis
      by simp
  qed
  have in_checker: "(t', e) \<in> set (trace (runWinningCheck env ?t2))"
    if "(t', e) \<in> set (events (run env))" "of_checking e" for t' e
  proof -
    from that have "(t', e) \<in> set (trace (runSteps env 0))"
      by (auto dest: run_events)
    with that(2) show ?thesis
      using prelude_events[of t' e env] runPurchase_events(1)[of t' e env]
      by (auto dest!: runSteps_events)
  qed
  have "t' \<le> tp"
    if "(t', e) \<in> set (events (run env))" "of_checking e" "\<not> check_settled e"
      "tp \<in> set (purchase_times (events (run env)))" for t' e tp
    using runWinningCheck_event_times[OF in_checker[OF that(1,2)]] that(3) purchased[OF that(4)]
    by simp
  then show "before_purchase (\<lambda>e. of_checking e \<and> \<not> check_settled e) (events (run env))"
    unfolding before_purchase_def by blast
  assume none: "\<forall>t n r. (t, Settled (Check n r) False) \<notin> set (events (run env))"
  have "t' \<le> tp"
    if "(t', e) \<in> set (events (run env))" "of_checking e"
      "tp \<in> set (purchase_times (events (run env)))" for t' e tp
  proof -
    note p = purchased[OF that(3)]
    from runWinningCheck_check_times[OF in_checker[OF that(1,2)]] show ?thesis
    proof
      assume "t' \<le> ?t3"
      with p show ?thesis by simp
    next
      assume "\<exists>t'' n r. t'' \<le> ?t3
          \<and> (t'', Settled (Check n r) False) \<in> set (trace (runWinningCheck env ?t2))"
      then obtain t'' n r where "t'' \<le> ?t3"
        "(t'', Settled (Check n r) False) \<in> set (trace (runWinningCheck env ?t2))"
        by blast
      with p have "(t'', Settled (Check n r) False) \<in> set (trace (runSteps env 0))"
        "t'' \<le> finished_at (runSteps env 0)"
        by auto
      then have "(t'', Settled (Check n r) False) \<in> set (events (run env))"
        by (rule run_events_kept)
      with none show ?thesis
        by blast
    qed
  qed
  then show "before_purchase of_checking (events (run env))"
    unfolding before_purchase_def by blast
qed

section \<open>The claims\<close>

text \<open>
  Claim C1, amended.  The amount passed to the purchase call is the one computed from the
  input (lines 94 and 95), and it always lies in the range from 1 to 5.  An input that
  converts to \<^verbatim>\<open>NaN\<close> or to zero takes the default 5: the default is chosen by
  \<^verbatim>\<open>||\<close>, for which zero is as false as \<^verbatim>\<open>NaN\<close>, so only the other numbers reach
  the clamp.  An input that is not set is the empty string, which converts to zero: it
  is through the false zero that it gets the default.  For the inputs \<^verbatim>\<open>"0"\<close>,
  \<^verbatim>\<open>"7"\<close>, \<^verbatim>\<open>"abc"\<close> and \<^verbatim>\<open>"3"\<close> the amount is 5, 5, 5 and 3.  The
  conversion rounds to a double: \<^verbatim>\<open>"1e-324"\<close> is zero as a double and gives 5, and
  \<^verbatim>\<open>"1.1"\<close> gives the double nearest to it.
\<close>

theorem purchase_amount:
  "filter is_Purchase (calls (trace (runPurchase env t)))
     = [Purchase (purchaseAmount (getInput env lottoPurchaseAmount))]
   \<and> (\<exists>q. purchaseAmount s = Fin q \<and> 1 \<le> q \<and> q \<le> 5)
   \<and> purchaseAmount s =
       (case Number s of
          NaN \<Rightarrow> Fin 5
        | PosInf \<Rightarrow> Fin 5
        | NegInf \<Rightarrow> Fin 1
        | Fin q \<Rightarrow> if q = 0 then Fin 5 else Fin (max 1 (min q 5)))
   \<and> purchaseAmount [] = Fin 5
   \<and> purchaseAmount ''0'' = Fin 5
   \<and> purchaseAmount ''7'' = Fin 5
   \<and> purchaseAmount ''abc'' = Fin 5
   \<and> purchaseAmount ''3'' = Fin 3
   \<and> purchaseAmount ''1e-324'' = Fin 5
   \<and> purchaseAmount ''1.1'' = Fin (2476979795053773 / 2251799813685248)"
  using purchaseAmount_range[of s] purchaseAmount_cases[of s]
  by (simp add: purchase_calls_runPurchase purchaseAmount_samples)

text \<open>The theorem at the inputs \<^verbatim>\<open>"3"\<close>, \<^verbatim>\<open>"7"\<close>, \<^verbatim>\<open>"abc"\<close> and at no input.\<close>

theorem purchase_amount_witness:
  "filter is_Purchase (calls (trace (runPurchase (asking ''3'') 0))) = [Purchase (Fin 3)]
   \<and> filter is_Purchase (calls (trace (runPurchase (asking ''7'') 0))) = [Purchase (Fin 5)]
   \<and> filter is_Purchase (calls (trace (runPurchase (asking ''abc'') 0))) = [Purchase (Fin 5)]
   \<and> filter is_Purchase (calls (trace (runPurchase (asking []) 0))) = [Purchase (Fin 5)]"
  using purchase_amount[of "asking ''3''" 0 "''3''"] purchase_amount[of "asking ''7''" 0 "''7''"]
    purchase_amount[of "asking ''abc''" 0 "''abc''"] purchase_amount[of "asking []" 0 "[]"]
  by (simp add: asking_def calm_def purchaseAmount_samples)

text \<open>
  Claim C1 as stated fails at the input \<^verbatim>\<open>"0"\<close>: the purchase call is made with the
  amount 5, not 1.
\<close>

theorem zero_is_not_clamped_to_one:
  "filter is_Purchase (calls (trace (runPurchase (asking ''0'') 0))) = [Purchase (Fin 5)]
   \<and> filter is_Purchase (calls (trace (runPurchase (asking ''0'') 0))) \<noteq> [Purchase (Fin 1)]"
  by (simp add: purchase_calls_runPurchase asking_def calm_def purchaseAmount_samples)

text \<open>
  Claim C2, amended.  For a ticket whose body decodes to no combination the checker makes
  no check call, and it does update the store: \<^verbatim>\<open>Promise.all\<close> of no promises
  fulfils with no ranks, and \<^verbatim>\<open>markIssueAsChecked\<close> is called at once with the empty
  list of labels.  The ticket's promise settles as that call does, so a failure is counted
  exactly when the update is rejected.
\<close>

theorem zero_combinations_marked:
  assumes "body issue = Some b" "b \<noteq> []" "bodyParser env b = Inr ([], r)"
  shows "trace (issuePromise env t issue) =
           [(t, Called (BodyParser b)),
            (t, Called (MarkIssueAsChecked (number issue) [])),
            (t + fst (markIssueAsChecked env (number issue) []),
               Settled (MarkIssueAsChecked (number issue) [])
                 (\<not> isl (snd (markIssueAsChecked env (number issue) []))))]
       \<and> filter is_Check (calls (trace (issuePromise env t issue))) = []
       \<and> filter store_write (calls (trace (issuePromise env t issue)))
             = [MarkIssueAsChecked (number issue) []]
       \<and> completion (issuePromise env t issue) = snd (markIssueAsChecked env (number issue) [])
       \<and> (snd (getWaitingIssues env) = Inr issues \<and> issue \<in> set issues \<longrightarrow>
            (checking_starts env t, Called (MarkIssueAsChecked (number issue) []))
               \<in> set (trace (runWinningCheck env t)))"
proof -
  have tr: "trace (issuePromise env t' issue) =
           [(t', Called (BodyParser b)),
            (t', Called (MarkIssueAsChecked (number issue) [])),
            (t' + fst (markIssueAsChecked env (number issue) []),
               Settled (MarkIssueAsChecked (number issue) [])
                 (\<not> isl (snd (markIssueAsChecked env (number issue) []))))]" for t'
    by (simp add: issuePromise_decoded[OF assms] trace_andThen call_def Promise_all_Nil
        await_def)
  have co: "completion (issuePromise env t issue) = snd (markIssueAsChecked env (number issue) [])"
    by (simp add: issuePromise_decoded[OF assms] completion_andThen call_def Promise_all_Nil
        await_def)
  have "(checking_starts env t, Called (MarkIssueAsChecked (number issue) []))
               \<in> set (trace (runWinningCheck env t))"
    if "snd (getWaitingIssues env) = Inr issues" "issue \<in> set issues"
    using issuePromise_in_runWinningCheck[OF that, of t] tr[of "checking_starts env t"]
    by auto
  with tr[of t] co show ?thesis
    by simp
qed

text \<open>The theorem in the scenario \<open>no_numbers\<close>.\<close>

theorem zero_combinations_marked_witness:
  "body \<lparr>number = 7, body = Some ''t''\<rparr> = Some ''t'' \<and> ''t'' \<noteq> []
   \<and> bodyParser no_numbers ''t'' = Inr ([], 1084)
   \<and> snd (getWaitingIssues no_numbers) = Inr [\<lparr>number = 7, body = Some ''t''\<rparr>]
   \<and> \<lparr>number = 7, body = Some ''t''\<rparr> \<in> set [\<lparr>number = 7, body = Some ''t''\<rparr>]
   \<and> trace (issuePromise no_numbers 1 \<lparr>number = 7, body = Some ''t''\<rparr>) =
        [(1, Called (BodyParser ''t'')), (1, Called (MarkIssueAsChecked 7 [])),
         (2, Settled (MarkIssueAsChecked 7 []) True)]
   \<and> completion (issuePromise no_numbers 1 \<lparr>number = 7, body = Some ''t''\<rparr>) = Inr ()
   \<and> (1, Called (MarkIssueAsChecked 7 [])) \<in> set (trace (runWinningCheck no_numbers 0))"
proof -
  have h: "body \<lparr>number = 7, body = Some ''t''\<rparr> = Some ''t''" "''t'' \<noteq> []"
    "bodyParser no_numbers ''t'' = Inr ([], 1084)"
    by (simp_all add: no_numbers_def calm_def)
  have l: "snd (getWaitingIssues no_numbers) = Inr [\<lparr>number = 7, body = Some ''t''\<rparr>]"
    by (simp add: no_numbers_def calm_def)
  have c: "checking_starts no_numbers 0 = 1"
    by (simp add: checking_starts_def no_numbers_def calm_def)
  have m: "markIssueAsChecked no_numbers 7 [] = (1, Inr ())"
    by (simp add: no_numbers_def calm_def)
  from zero_combinations_marked[OF h, of 1 "[\<lparr>number = 7, body = Some ''t''\<rparr>]"]
    zero_combinations_marked[OF h, of 0 "[\<lparr>number = 7, body = Some ''t''\<rparr>]"] h l c m
  show ?thesis
    by simp
qed

text \<open>
  Claim C2 as stated fails for a ticket (number 7) whose body decodes to no combination:
  the checker calls the store's update for it, and the update is fulfilled.
\<close>

theorem zero_combinations_not_noop:
  "calls (trace (runWinningCheck no_numbers 0))
     = [GetWaitingIssues, BodyParser ''t'', MarkIssueAsChecked 7 []]
   \<and> fulfilments (trace (runWinningCheck no_numbers 0))
     = [GetWaitingIssues, MarkIssueAsChecked 7 []]"
proof -
  have l: "snd (getWaitingIssues no_numbers) = Inr [\<lparr>number = 7, body = Some ''t''\<rparr>]"
    by (simp add: no_numbers_def calm_def)
  have i: "issuePromise no_numbers t \<lparr>number = 7, body = Some ''t''\<rparr> =
     \<lparr>trace = [(t, Called (BodyParser ''t'')), (t, Called (MarkIssueAsChecked 7 [])),
         (t + 1, Settled (MarkIssueAsChecked 7 []) True)],
      finished_at = t + 1, completion = Inr ()\<rparr>" for t
    by (simp add: issuePromise_def andThen_def call_def Promise_all_Nil await_def
        no_numbers_def calm_def)
  show ?thesis
    by (simp add: runWinningCheck_listed[OF l] i rejected_issues_def)
qed

text \<open>
  Claim C3.  If the \<^verbatim>\<open>try\<close> block of \<^verbatim>\<open>runPurchase\<close> throws (the purchase call, the
  round, the link, the body or the create call fails), then no create call is fulfilled
  (a ticket counts as created when the store fulfils the create call), and the session's
  \<^verbatim>\<open>destroy\<close> is called exactly once.  The create call is not even made, unless the
  failure is its own rejection.  The same holds of the whole run, when it gets as far as
  the purchase call: nothing else in a run creates a ticket or calls \<^verbatim>\<open>destroy\<close>.
\<close>

theorem purchase_atomicity:
  assumes "completion (purchaseAndRecord env t) = Inl e"
  shows "filter is_CreateWaitingIssue (fulfilments (trace (runPurchase env t))) = []
       \<and> filter (\<lambda>c. c = Destroy) (calls (trace (runPurchase env t))) = [Destroy]
       \<and> (filter is_CreateWaitingIssue (calls (trace (runPurchase env t))) = []
          \<or> (\<exists>d b. snd (createWaitingIssue env d b) = Inl e))
       \<and> (purchase_times (events (run env)) \<noteq> [] \<longrightarrow>
            filter is_CreateWaitingIssue (fulfilments (events (run env))) = []
            \<and> filter (\<lambda>c. c = Destroy) (calls (events (run env))) = [Destroy])"
proof -
  have local: "filter is_CreateWaitingIssue (fulfilments (trace (runPurchase env t))) = []
       \<and> filter (\<lambda>c. c = Destroy) (calls (trace (runPurchase env t))) = [Destroy]
       \<and> (filter is_CreateWaitingIssue (calls (trace (runPurchase env t))) = []
          \<or> (\<exists>d b. snd (createWaitingIssue env d b) = Inl e))"
    using purchaseAndRecord_failed[OF assms] assms
    by (auto simp: trace_runPurchase trace_purchaseFailed fulfilments_append calls_append
        purchaseAndRecord_silent split: sum.splits thrown.splits)
  have whole: "filter is_CreateWaitingIssue (fulfilments (events (run env))) = []
            \<and> filter (\<lambda>c. c = Destroy) (calls (events (run env))) = [Destroy]"
    if "purchase_times (events (run env)) \<noteq> []"
  proof -
    let ?P = "\<lambda>(t, e). t \<le> finished_at (runSteps env 0)"
    let ?handler = "case completion (runSteps env 0) of
              Inl (Error m) \<Rightarrow>
                [(finished_at (runSteps env 0), Info (RunFailed (Error m))),
                 (finished_at (runSteps env 0), SetFailed m)]
            | Inl (NonError v) \<Rightarrow> []
            | Inr u \<Rightarrow> []"
    have no_handler: "calls ?handler = []" "fulfilments ?handler = []"
      by (simp_all split: sum.splits thrown.splits)
    have ev: "events (run env) = filter ?P (trace (runSteps env 0)) @ filter ?P ?handler"
      by (simp add: run_unfolded)
    from that have "set (purchase_times (events (run env))) \<noteq> {}"
      by simp
    then obtain tp' a where "(tp', Called (Purchase a)) \<in> set (events (run env))"
      unfolding set_purchase_times by blast
    then have "(tp', Called (Purchase a)) \<in> set (trace (runSteps env 0))"
      by (auto dest: run_events)
    then have "tp' \<in> set (purchase_times (trace (runSteps env 0)))"
      unfolding set_purchase_times by blast
    then have "purchase_times (trace (runSteps env 0)) \<noteq> []"
      by auto
    then obtain tp where steps: "trace (runSteps env 0) =
         trace (runInitRepo env 0) @
         trace (runActionsEnvironments env (finished_at (runInitRepo env 0))) @
         trace (runWinningCheck env
           (finished_at (runActionsEnvironments env (finished_at (runInitRepo env 0))))) @
         trace (runPurchase env tp)"
      and fin: "finished_at (runSteps env 0) = finished_at (runPurchase env tp)"
      by (rule runSteps_purchase_reached)
    have failed: "completion (purchaseAndRecord env tp) = Inl e"
      using assms completion_purchaseAndRecord_time[of env tp t] by simp
    let ?td = "finished_at (purchaseAndRecord env tp)"
    have fin': "finished_at (runSteps env 0) = ?td + fst (destroy env)"
      by (simp add: fin runPurchase_def finished_andThen info_def tryCatch_def Let_def failed
          finished_purchaseFailed)
    have purchase: "trace (runPurchase env tp) =
        (tp, Info Purchasing) # trace (purchaseAndRecord env tp) @
        (?td, Called Destroy) # tl (trace (purchaseFailed env ?td e))"
      by (simp add: trace_runPurchase failed trace_purchaseFailed)
    have rest: "filter (\<lambda>c. c = Destroy) (calls (tl (trace (purchaseFailed env ?td e)))) = []"
      "filter is_CreateWaitingIssue (fulfilments (tl (trace (purchaseFailed env ?td e)))) = []"
      by (simp_all add: trace_purchaseFailed split: sum.splits thrown.splits)
    have created: "filter is_CreateWaitingIssue (fulfilments (events (run env))) = []"
      by (simp add: ev steps purchase fulfilments_append fulfilments_filter_none
          before_purchase_no_release purchaseAndRecord_failed(1)[OF failed] rest no_handler
          split: sum.splits thrown.splits)
    have released: "filter (\<lambda>c. c = Destroy) (calls (events (run env))) = [Destroy]"
      by (simp add: ev steps purchase calls_append calls_filter_none
          before_purchase_no_release purchaseAndRecord_silent rest no_handler fin'
          split: sum.splits thrown.splits)
    from created released show ?thesis
      by simp
  qed
  from local whole show ?thesis
    by blast
qed

text \<open>The theorem in the scenario \<open>sold_out\<close>.\<close>

theorem purchase_atomicity_witness:
  "completion (purchaseAndRecord sold_out 0) = Inl (Error ''sold out'')
   \<and> purchase_times (events (run sold_out)) = [3]
   \<and> calls (trace (runPurchase sold_out 0)) = [Purchase (Fin 5), Destroy]
   \<and> fulfilments (trace (runPurchase sold_out 0)) = [Destroy]
   \<and> filter is_CreateWaitingIssue (fulfilments (events (run sold_out))) = []
   \<and> filter (\<lambda>c. c = Destroy) (calls (events (run sold_out))) = [Destroy]"
proof -
  have failed: "completion (purchaseAndRecord sold_out 0) = Inl (Error ''sold out'')"
    by code_simp
  have reached: "purchase_times (events (run sold_out)) = [3]"
    by code_simp
  have "calls (trace (runPurchase sold_out 0)) = [Purchase (Fin 5), Destroy]"
    and "fulfilments (trace (runPurchase sold_out 0)) = [Destroy]"
    by code_simp+
  with failed reached purchase_atomicity[OF failed] show ?thesis
    by simp
qed

text \<open>
  Claim C4.  When the list of waiting issues has been read, the checker returns normally
  whatever happens to the tickets.  Every ticket's promise runs as it would alone: all
  its events are in the checker's trace, and the checker finishes only when it has
  settled.  The number of rejected promises is logged, once, when it is not zero.  In
  particular, for two tickets \<open>A\<close> and \<open>B\<close> where \<open>A\<close> decodes and its promise is
  fulfilled and the decoding of \<open>B\<close> throws: the update of \<open>A\<close> is fulfilled, no
  update of \<open>B\<close> is called, and the count logged is 1.
\<close>

theorem failure_isolation:
  assumes "snd (getWaitingIssues env) = Inr issues"
  shows "completion (runWinningCheck env t) = Inr ()
       \<and> (\<forall>issue \<in> set issues.
            set (trace (issuePromise env (checking_starts env t) issue))
              \<subseteq> set (trace (runWinningCheck env t))
            \<and> finished_at (issuePromise env (checking_starts env t) issue)
              \<le> finished_at (runWinningCheck env t))
       \<and> failure_counts (trace (runWinningCheck env t)) =
            (if rejected_issues env (checking_starts env t) issues = [] then []
             else [length (rejected_issues env (checking_starts env t) issues)])
       \<and> (issues = [A, B] \<and> number A \<noteq> number B
           \<and> body A = Some a \<and> a \<noteq> [] \<and> \<not> isl (bodyParser env a)
           \<and> completion (issuePromise env (checking_starts env t) A) = Inr ()
           \<and> body B = Some b \<and> b \<noteq> [] \<and> isl (bodyParser env b) \<longrightarrow>
             (\<exists>ls. MarkIssueAsChecked (number A) ls
                      \<in> set (fulfilments (trace (runWinningCheck env t))))
           \<and> (\<forall>ls. MarkIssueAsChecked (number B) ls
                      \<notin> set (calls (trace (runWinningCheck env t))))
           \<and> failure_counts (trace (runWinningCheck env t)) = [1])"
proof -
  let ?t = "checking_starts env t"
  note listed = runWinningCheck_listed[OF assms, of t]
  have returns: "completion (runWinningCheck env t) = Inr ()"
    by (simp add: listed)
  have each: "set (trace (issuePromise env ?t issue)) \<subseteq> set (trace (runWinningCheck env t))
            \<and> finished_at (issuePromise env ?t issue) \<le> finished_at (runWinningCheck env t)"
    if "issue \<in> set issues" for issue
  proof -
    from that have "issues \<noteq> []" by auto
    with that show ?thesis
      by (auto simp: listed all_settled_at_ge)
  qed
  have no_counts: "failure_counts (concat (map (\<lambda>i. trace (issuePromise env ?t i)) is)) = []"
    for "is"
    by (induction "is")
      (auto simp: failure_counts_append failure_counts_def List.map_filter_def
        filter_empty_conv dest: trace_issuePromise_events)
  have counted: "failure_counts (trace (runWinningCheck env t)) =
            (if rejected_issues env ?t issues = [] then []
             else [length (rejected_issues env ?t issues)])"
    by (simp add: listed failure_counts_append no_counts rejected_issues_def)
  have two: "(\<exists>ls. MarkIssueAsChecked (number A) ls
                      \<in> set (fulfilments (trace (runWinningCheck env t))))
           \<and> (\<forall>ls. MarkIssueAsChecked (number B) ls
                      \<notin> set (calls (trace (runWinningCheck env t))))
           \<and> failure_counts (trace (runWinningCheck env t)) = [1]"
    if two: "issues = [A, B]" "number A \<noteq> number B"
      and A: "body A = Some a" "a \<noteq> []" "\<not> isl (bodyParser env a)"
        "completion (issuePromise env ?t A) = Inr ()"
      and B: "body B = Some b" "b \<noteq> []" "isl (bodyParser env b)"
  proof -
    obtain numbers r where decoded: "bodyParser env a = Inr (numbers, r)"
      using A(3) by (cases "bodyParser env a") auto
    obtain e where undecoded: "bodyParser env b = Inl e"
      using B(3) by (cases "bodyParser env b") auto
    note B_trace = issuePromise_undecoded[OF B(1,2) undecoded, of ?t]
    have tr: "set (trace (runWinningCheck env t)) =
        {(t, Info CheckingResults), (t, Called GetWaitingIssues),
         (?t, Settled GetWaitingIssues True), (?t, Info (CheckingCount 2)),
         (?t, Called (BodyParser b)), (all_settled_at env ?t issues, Info (CheckErrors 1))}
        \<union> set (trace (issuePromise env ?t A))"
      by (auto simp: listed two(1) B_trace rejected_issues_def A(4))
    obtain t' ls where "(t', Settled (MarkIssueAsChecked (number A) ls) True)
        \<in> set (trace (issuePromise env ?t A))"
      using issuePromise_fulfilled_marks[OF A(1,2) decoded A(4)] by blast
    then have 1: "\<exists>ls. MarkIssueAsChecked (number A) ls
        \<in> set (fulfilments (trace (runWinningCheck env t)))"
      by (auto simp: set_fulfilments tr)
    have 2: "MarkIssueAsChecked (number B) ls \<notin> set (calls (trace (runWinningCheck env t)))"
      for ls
      using two(2) by (auto simp: set_calls tr dest: issuePromise_event_cases)
    have 3: "failure_counts (trace (runWinningCheck env t)) = [1]"
      by (simp add: counted two(1) rejected_issues_def A(4) B_trace)
    from 1 2 3 show ?thesis
      by blast
  qed
  from returns each counted two show ?thesis
    by blast
qed

text \<open>The theorem in the scenario \<open>one_bad_body\<close>.\<close>

theorem failure_isolation_witness:
  "snd (getWaitingIssues one_bad_body)
     = Inr [\<lparr>number = 7, body = Some ''good''\<rparr>, \<lparr>number = 8, body = Some ''bad''\<rparr>]
   \<and> \<not> isl (bodyParser one_bad_body ''good'') \<and> isl (bodyParser one_bad_body ''bad'')
   \<and> completion (issuePromise one_bad_body 1 \<lparr>number = 7, body = Some ''good''\<rparr>) = Inr ()
   \<and> completion (runWinningCheck one_bad_body 0) = Inr ()
   \<and> failure_counts (trace (runWinningCheck one_bad_body 0)) = [1]
   \<and> filter is_MarkIssueAsChecked (fulfilments (trace (runWinningCheck one_bad_body 0)))
        = [MarkIssueAsChecked 7 [''lose'']]
   \<and> filter is_MarkIssueAsChecked (calls (trace (runWinningCheck one_bad_body 0)))
        = [MarkIssueAsChecked 7 [''lose'']]"
proof -
  have l: "snd (getWaitingIssues one_bad_body)
     = Inr [\<lparr>number = 7, body = Some ''good''\<rparr>, \<lparr>number = 8, body = Some ''bad''\<rparr>]"
    by (simp add: one_bad_body_def calm_def)
  have p: "\<not> isl (bodyParser one_bad_body ''good'')" "isl (bodyParser one_bad_body ''bad'')"
    by (simp_all add: one_bad_body_def calm_def)
  have c: "checking_starts one_bad_body 0 = 1"
    by (simp add: checking_starts_def one_bad_body_def calm_def)
  have A: "completion (issuePromise one_bad_body 1 \<lparr>number = 7, body = Some ''good''\<rparr>) = Inr ()"
    by code_simp
  have m: "filter is_MarkIssueAsChecked (fulfilments (trace (runWinningCheck one_bad_body 0)))
        = [MarkIssueAsChecked 7 [''lose'']]"
    "filter is_MarkIssueAsChecked (calls (trace (runWinningCheck one_bad_body 0)))
        = [MarkIssueAsChecked 7 [''lose'']]"
    by code_simp+
  have h: "[\<lparr>number = 7, body = Some ''good''\<rparr>, \<lparr>number = 8, body = Some ''bad''\<rparr>]
        = [\<lparr>number = 7, body = Some ''good''\<rparr>, \<lparr>number = 8, body = Some ''bad''\<rparr>]
      \<and> number \<lparr>number = 7, body = Some ''good''\<rparr> \<noteq> number \<lparr>number = 8, body = Some ''bad''\<rparr>
      \<and> body \<lparr>number = 7, body = Some ''good''\<rparr> = Some ''good'' \<and> ''good'' \<noteq> []
      \<and> \<not> isl (bodyParser one_bad_body ''good'')
      \<and> completion (issuePromise one_bad_body (checking_starts one_bad_body 0)
            \<lparr>number = 7, body = Some ''good''\<rparr>) = Inr ()
      \<and> body \<lparr>number = 8, body = Some ''bad''\<rparr> = Some ''bad'' \<and> ''bad'' \<noteq> []
      \<and> isl (bodyParser one_bad_body ''bad'')"
    using p A c by simp
  from failure_isolation[OF l, of 0 "\<lparr>number = 7, body = Some ''good''\<rparr>"
      "\<lparr>number = 8, body = Some ''bad''\<rparr>" "''good''" "''bad''"] h
  have "completion (runWinningCheck one_bad_body 0) = Inr ()
      \<and> failure_counts (trace (runWinningCheck one_bad_body 0)) = [1]"
    by blast
  with l p A m show ?thesis
    by simp
qed

text \<open>
  Claim C5.  When the checks of a ticket are all fulfilled, the one update of the ticket
  carries the labels of the ranks with duplicates removed: the list is distinct and has
  exactly the labels of the ranks as members.  For the ranks 5, 5 and 3 it has two
  members, the labels of rank 5 and of rank 3 (\<^verbatim>\<open>rankToLabel\<close> is a parameter: the two
  labels are taken to differ).
\<close>

theorem labels_deduplicated:
  assumes "body issue = Some b" "b \<noteq> []" "bodyParser env b = Inr (numbers, r)"
    and "map (\<lambda>n. snd (check env n r)) numbers = map Inr ranks"
  shows "filter is_MarkIssueAsChecked (calls (trace (issuePromise env t issue)))
           = [MarkIssueAsChecked (number issue) (spread_Set (map (rankToLabel env) ranks))]
       \<and> distinct (spread_Set (map (rankToLabel env) ranks))
       \<and> set (spread_Set (map (rankToLabel env) ranks)) = rankToLabel env ` set ranks
       \<and> (ranks = [5, 5, 3] \<and> rankToLabel env 5 \<noteq> rankToLabel env 3 \<longrightarrow>
            spread_Set (map (rankToLabel env) ranks) = [rankToLabel env 5, rankToLabel env 3]
            \<and> length (spread_Set (map (rankToLabel env) ranks)) = 2)"
proof -
  have no_mark: "filter is_MarkIssueAsChecked
      (calls (concat (map (\<lambda>n. trace (checkPromise env r t n)) ns))) = []" for ns
    by (induction ns) (simp_all add: trace_checkPromise calls_append)
  have "filter is_MarkIssueAsChecked (calls (trace (issuePromise env t issue)))
           = [MarkIssueAsChecked (number issue) (spread_Set (map (rankToLabel env) ranks))]"
    by (simp add: issuePromise_decoded[OF assms(1-3)] trace_andThen call_def
        checks_fulfilled[OF assms(4)] await_def calls_append no_mark)
  then show ?thesis
    by auto
qed

text \<open>The theorem in the scenario \<open>three_ranks\<close>.\<close>

theorem labels_deduplicated_witness:
  "body \<lparr>number = 7, body = Some ''t''\<rparr> = Some ''t'' \<and> ''t'' \<noteq> []
   \<and> bodyParser three_ranks ''t'' = Inr ([[1], [2], [3]], 1084)
   \<and> map (\<lambda>n. snd (check three_ranks n 1084)) [[1], [2], [3]] = map Inr [5, 5, 3]
   \<and> rankToLabel three_ranks 5 \<noteq> rankToLabel three_ranks 3
   \<and> filter is_MarkIssueAsChecked
        (calls (trace (issuePromise three_ranks 1 \<lparr>number = 7, body = Some ''t''\<rparr>)))
        = [MarkIssueAsChecked 7 [''5th'', ''3rd'']]"
proof -
  have h: "body \<lparr>number = 7, body = Some ''t''\<rparr> = Some ''t''" "''t'' \<noteq> []"
    "bodyParser three_ranks ''t'' = Inr ([[1], [2], [3]], 1084)"
    "map (\<lambda>n. snd (check three_ranks n 1084)) [[1], [2], [3]] = map Inr [5, 5, 3]"
    by (simp_all add: three_ranks_def calm_def)
  have l: "rankToLabel three_ranks 5 = ''5th''" "rankToLabel three_ranks 3 = ''3rd''"
    by (simp_all add: three_ranks_def calm_def sample_label_def)
  from labels_deduplicated[OF h, of 1] h l show ?thesis
    by simp
qed

text \<open>
  Claim C6.  Every run exits with the status 0, the argument of \<^verbatim>\<open>process.exit\<close> in
  the \<^verbatim>\<open>finally\<close> block.  A failure shows in the trace only: when an \<open>Error\<close>
  escapes to the catch block of \<^verbatim>\<open>run\<close>, its message is given to
  \<^verbatim>\<open>core.setFailed\<close> and a line is logged, and the status is still 0.
\<close>

theorem exit_status_success:
  "exit_status (run env) = 0
   \<and> (completion (runSteps env 0) = Inl (Error m) \<longrightarrow>
        signals (events (run env)) = [m] \<and> failure_lines (events (run env)) = [Error m])"
  by (auto simp: run_unfolded signals_append failure_lines_append signals_filter_Nil
      failure_lines_filter_Nil runSteps_throws_silent)

text \<open>The theorem in the scenario \<open>no_access\<close>.\<close>

theorem exit_status_success_witness:
  "completion (runSteps no_access 0) = Inl (Error ''no access'')
   \<and> exit_status (run no_access) = 0
   \<and> signals (events (run no_access)) = [''no access'']
   \<and> events (run no_access) =
        [(0, Called InitLabels), (1, Settled InitLabels False),
         (1, Info (RunFailed (Error ''no access''))), (1, SetFailed ''no access'')]"
proof -
  have s: "runSteps no_access 0 =
      \<lparr>trace = [(0, Called InitLabels), (1, Settled InitLabels False)], finished_at = 1,
       completion = Inl (Error ''no access'')\<rparr>"
    by (simp add: runSteps_def runInitRepo_def andThen_def await_def no_access_def calm_def)
  then have c: "completion (runSteps no_access 0) = Inl (Error ''no access'')"
    by simp
  have "events (run no_access) =
        [(0, Called InitLabels), (1, Settled InitLabels False),
         (1, Info (RunFailed (Error ''no access''))), (1, SetFailed ''no access'')]"
    by (simp add: run_unfolded s)
  with exit_status_success[of no_access "''no access''"] c show ?thesis
    by simp
qed

text \<open>
  Claim C7.  When no ticket is waiting, the checker does nothing: it logs its two lines
  around the one read of the store, makes no check call and no store write, logs no
  failure count and returns normally.
\<close>

theorem empty_awaiting_noop:
  assumes "snd (getWaitingIssues env) = Inr []"
  shows "trace (runWinningCheck env t) =
           [(t, Info CheckingResults), (t, Called GetWaitingIssues),
            (checking_starts env t, Settled GetWaitingIssues True),
            (checking_starts env t, Info NothingToCheck)]
       \<and> filter is_Check (calls (trace (runWinningCheck env t))) = []
       \<and> filter store_write (calls (trace (runWinningCheck env t))) = []
       \<and> failure_counts (trace (runWinningCheck env t)) = []
       \<and> completion (runWinningCheck env t) = Inr ()"
  by (simp add: runWinningCheck_listed[OF assms])

text \<open>The theorem in the scenario \<open>calm\<close>.\<close>

theorem empty_awaiting_noop_witness:
  "snd (getWaitingIssues calm) = Inr []
   \<and> calls (trace (runWinningCheck calm 0)) = [GetWaitingIssues]
   \<and> filter store_write (calls (trace (runWinningCheck calm 0))) = []
   \<and> failure_counts (trace (runWinningCheck calm 0)) = []"
proof -
  have listed: "snd (getWaitingIssues calm) = Inr []"
    by (simp add: calm_def)
  from empty_awaiting_noop[OF listed, of 0] listed show ?thesis
    by simp
qed

text \<open>
  Claim C8 does not hold of the code.  In the scenario \<open>racing\<close> one ticket with two
  combinations is waiting; the check of the first is rejected and the check of the second
  is slower.  Both check calls are made at time 3.  \<^verbatim>\<open>Promise.all\<close> (line 73)
  rejects the ticket at time 4, when the first check is rejected, without waiting for the
  second; \<^verbatim>\<open>Promise.allSettled\<close> (line 80) has then joined the only ticket, the
  checker logs one failure and returns, and the purchase is called at time 4.  The second
  check call settles at time 5, while the purchase, which settles at time 7, is in
  progress on the same session: the checking phase has not completed when the purchase
  phase makes its first call.
\<close>

theorem check_settles_during_purchase:
  "purchase_times (events (run racing)) = [4]
   \<and> (3, Called (Check [1] 1084)) \<in> set (events (run racing))
   \<and> (3, Called (Check [2] 1084)) \<in> set (events (run racing))
   \<and> (4, Settled (Check [1] 1084) False) \<in> set (events (run racing))
   \<and> (4, Info (CheckErrors 1)) \<in> set (events (run racing))
   \<and> (4, Called (Purchase (Fin 5))) \<in> set (events (run racing))
   \<and> (5, Settled (Check [2] 1084) True) \<in> set (events (run racing))
   \<and> (7, Settled (Purchase (Fin 5)) True) \<in> set (events (run racing))"
  by code_simp

text \<open>
  Claim C9.  A ticket whose body is absent or empty is skipped: its promise does nothing
  (no decode, no check call, no update), is fulfilled at once, and is never among the
  rejected tickets that the checker counts.
\<close>

theorem empty_body_skipped:
  assumes "body issue = None \<or> body issue = Some []"
  shows "trace (issuePromise env t issue) = []
       \<and> completion (issuePromise env t issue) = Inr ()
       \<and> finished_at (issuePromise env t issue) = t
       \<and> issue \<notin> set (rejected_issues env t issues)"
  by (simp add: issuePromise_no_body[OF assms] ret_def rejected_issues_def)

text \<open>The theorem for the two tickets of the scenario \<open>no_bodies\<close>.\<close>

theorem empty_body_skipped_witness:
  "(body \<lparr>number = 7, body = None\<rparr> = None \<or> body \<lparr>number = 7, body = None\<rparr> = Some [])
   \<and> (body \<lparr>number = 8, body = Some []\<rparr> = None \<or> body \<lparr>number = 8, body = Some []\<rparr> = Some [])
   \<and> calls (trace (runWinningCheck no_bodies 0)) = [GetWaitingIssues]
   \<and> failure_counts (trace (runWinningCheck no_bodies 0)) = []
   \<and> completion (runWinningCheck no_bodies 0) = Inr ()"
proof -
  have a: "body \<lparr>number = 7, body = None\<rparr> = None \<or> body \<lparr>number = 7, body = None\<rparr> = Some []"
    and b: "body \<lparr>number = 8, body = Some []\<rparr> = None \<or> body \<lparr>number = 8, body = Some []\<rparr> = Some []"
    by simp_all
  have l: "snd (getWaitingIssues no_bodies)
      = Inr [\<lparr>number = 7, body = None\<rparr>, \<lparr>number = 8, body = Some []\<rparr>]"
    by (simp add: no_bodies_def calm_def)
  note skipped = empty_body_skipped[OF a, of no_bodies "checking_starts no_bodies 0" "[]"]
    empty_body_skipped[OF b, of no_bodies "checking_starts no_bodies 0" "[]"]
  show ?thesis
    using skipped by (simp add: runWinningCheck_listed[OF l] rejected_issues_def)
qed

text \<open>
  Claim C10.  A thrown value that is not an \<open>Error\<close> is reported by neither catch
  block.  If such a value escapes to the catch block of \<^verbatim>\<open>run\<close>, the whole run
  gives no message to \<^verbatim>\<open>core.setFailed\<close>, logs no failure line and exits with the
  status 0.  If the \<^verbatim>\<open>try\<close> block of \<^verbatim>\<open>runPurchase\<close> throws such a value,
  \<^verbatim>\<open>runPurchase\<close> sets no failure signal and logs no failure line; and when nothing
  else is thrown after it (by \<^verbatim>\<open>destroy\<close>), the same holds of the whole run.
\<close>

theorem non_Error_unreported:
  "(completion (runSteps env 0) = Inl (NonError v) \<longrightarrow>
      signals (events (run env)) = [] \<and> failure_lines (events (run env)) = []
      \<and> exit_status (run env) = 0)
   \<and> (completion (purchaseAndRecord env t) = Inl (NonError v) \<longrightarrow>
      signals (trace (runPurchase env t)) = [] \<and> failure_lines (trace (runPurchase env t)) = [])
   \<and> (completion (purchaseAndRecord env t) = Inl (NonError v)
       \<and> completion (runSteps env 0) = Inr () \<longrightarrow>
      signals (events (run env)) = [] \<and> failure_lines (events (run env)) = []
      \<and> exit_status (run env) = 0)"
  by (auto simp: run_unfolded signals_append failure_lines_append signals_filter_Nil
      failure_lines_filter_Nil runSteps_throws_silent runPurchase_reports
      runSteps_returned_signals)

text \<open>The theorem in the scenarios \<open>odd_throws\<close> and \<open>busy\<close>.\<close>

theorem non_Error_unreported_witness:
  "completion (runSteps odd_throws 0) = Inl (NonError ''gone'')
   \<and> completion (purchaseAndRecord odd_throws 3) = Inl (NonError ''busy'')
   \<and> signals (events (run odd_throws)) = []
   \<and> failure_lines (events (run odd_throws)) = []
   \<and> exit_status (run odd_throws) = 0
   \<and> signals (trace (runPurchase odd_throws 3)) = []
   \<and> failure_lines (trace (runPurchase odd_throws 3)) = []
   \<and> completion (purchaseAndRecord busy 3) = Inl (NonError ''busy'')
   \<and> completion (runSteps busy 0) = Inr ()
   \<and> signals (events (run busy)) = []
   \<and> failure_lines (events (run busy)) = []
   \<and> exit_status (run busy) = 0"
proof -
  have p: "completion (purchaseAndRecord odd_throws 3) = Inl (NonError ''busy'')"
    by code_simp
  have s: "completion (runSteps odd_throws 0) = Inl (NonError ''gone'')"
    by code_simp
  have p': "completion (purchaseAndRecord busy 3) = Inl (NonError ''busy'')"
    by code_simp
  have s': "completion (runSteps busy 0) = Inr ()"
    by code_simp
  from non_Error_unreported[of odd_throws "''gone''" 3]
    non_Error_unreported[of odd_throws "''busy''" 3]
    non_Error_unreported[of busy "''busy''" 3] s p s' p'
  show ?thesis
    by simp
qed

end
